theory Spec2Isabelle
  imports Complex_Main "HOL-Library.Log_Nat" "HOL-Library.Multiset"
begin

section \<open>The CrossProduct puzzle engine\<close>

text \<open>
  The notebook solves CrossProduct puzzles: given the required product of every row and of
  every column of a grid of digits 1..9, find the grids. This theory embeds
  \<^verbatim>\<open>fill_row\<close>, \<^verbatim>\<open>solutions\<close>, \<^verbatim>\<open>solve\<close>,
  \<^verbatim>\<open>well_formed\<close> and \<^verbatim>\<open>table_puzzle\<close> as the notebook writes them.

  The notebook tests divisibility with true division: \<^verbatim>\<open>(product / d).is_integer()\<close>
  on the row products and \<^verbatim>\<open>numpy.divide\<close> on the column products. Both produce IEEE
  binary64 values. A finite binary64 value is a rational number, so the embedding carries
  these values in \<^typ>\<open>rat\<close> and writes the rounding out.

  An exception of Python is a value of \<open>error\<close>. Python's limit on the depth of
  recursion is not part of the embedding.
\<close>

subsection \<open>Data types\<close>

datatype error = OverflowError | ZeroDivisionError

type_synonym row = "int list"
type_synonym table = "row list"

text \<open>
  \<^verbatim>\<open>Puzzle = namedtuple('Puzzle', 'row_prods, col_prods')\<close>. The notebook makes puzzles
  in two ways, and the integers in them are of two kinds. A puzzle that is written out holds
  Python ints: that is \<open>Puzzle\<close>. A puzzle that \<^verbatim>\<open>table_puzzle\<close> returns holds
  the results of \<^verbatim>\<open>numpy.prod\<close>, which are 64-bit integers of numpy: that is
  \<open>Puzzle_int64\<close>. The two kinds divide differently, and \<^verbatim>\<open>fill_row\<close> divides the
  row products; the kind of a product stays what it is through \<^verbatim>\<open>//\<close> and
  \<^verbatim>\<open>row_prods[1:]\<close>.

  The solver builds its sub-puzzles with \<^verbatim>\<open>divide(col_prods, row1)\<close>, a float array,
  so the column products are rationals here: integers at entry, binary64 values below.
\<close>

datatype puzzle =
    Puzzle (row_prods: "int list") (col_prods: "rat list")
  | Puzzle_int64 (row_prods: "int list") (col_prods: "rat list")

subsection \<open>Binary64 arithmetic\<close>

text \<open>Rounding a rational to the nearest integer, ties to the even one.\<close>

definition rne :: "rat \<Rightarrow> int" where
  "rne x = (let f = \<lfloor>x\<rfloor>; r = x - of_int f in
     if r < 1/2 then f else if 1/2 < r then f + 1 else if even f then f else f + 1)"

text \<open>The binary exponent of a positive rational: \<open>2 powi ilog2 x \<le> x < 2 powi (ilog2 x + 1)\<close>.\<close>

definition ilog2 :: "rat \<Rightarrow> int" where
  "ilog2 x = (let (p, q) = quotient_of x; e = bitlen p - bitlen q in
     if 2 powi e \<le> x then e else e - 1)"

text \<open>
  Round to nearest, ties to even, with a 53-bit significand; below the smallest normal
  exponent \<open>-1022\<close> the spacing stays \<open>2 powi -1074\<close>. The exponent is not bounded above
  here: a result of magnitude \<open>2 ^ 1024\<close> or more is what binary64 cannot hold.
\<close>

definition round_double :: "rat \<Rightarrow> rat" where
  "round_double x = (if x = 0 then 0 else
     let u = 2 powi (max (ilog2 \<bar>x\<bar>) (- 1022) - 52)
     in sgn x * of_int (rne (\<bar>x\<bar> / u)) * u)"

text \<open>\<^verbatim>\<open>float.is_integer()\<close>, and \<^verbatim>\<open>c == int(c)\<close> on a finite value.\<close>

definition is_integer :: "rat \<Rightarrow> bool" where
  "is_integer x = (of_int \<lfloor>x\<rfloor> = x)"

text \<open>
  Python's \<^verbatim>\<open>a / b\<close> with an int divisor: the correctly rounded quotient, or
  OverflowError when it is too large for a float. The dividend is an int, or a
  float already; a float divided by a digit is never too large.
\<close>

definition truediv :: "rat \<Rightarrow> int \<Rightarrow> error + rat" where
  "truediv a b = (if b = 0 then Inl ZeroDivisionError else
     let q = round_double (a / of_int b) in
     if 2 ^ 1024 \<le> \<bar>q\<bar> then Inl OverflowError else Inr q)"

text \<open>
  \<^verbatim>\<open>a / b\<close> with \<open>a\<close> a 64-bit integer of numpy and \<open>b\<close> a digit: numpy converts
  both to binary64 and divides there, so the dividend is rounded before the quotient is.
  Nothing is raised.
\<close>

definition truediv_int64 :: "int \<Rightarrow> int \<Rightarrow> rat" where
  "truediv_int64 a b = round_double (round_double (of_int a) / of_int b)"

subsection \<open>Filling in one row\<close>

text \<open>The first exception ends a comprehension; otherwise the parts are joined in order.\<close>

fun collect :: "(error + 'a list) list \<Rightarrow> error + 'a list" where
  "collect [] = Inr []"
| "collect (Inl e # _) = Inl e"
| "collect (Inr xs # rs) = (case collect rs of Inl e \<Rightarrow> Inl e | Inr ys \<Rightarrow> Inr (xs @ ys))"

text \<open>
  \<^verbatim>\<open>
  def fill_row(product, k=3) -> Set[Row]:
      return ({()}   if k == 0 and product == 1 else
              set()  if k == 0 and product != 1 else
              {(d, *rest) for d in range(1, 10)
               if (product / d).is_integer()
               for rest in fill_row(product // d, k - 1)})
  \<close>
  The set is kept as the list of its elements in the order they are inserted, one copy of
  each. Python's \<^verbatim>\<open>//\<close> is floor division, as \<open>div\<close> on \<^typ>\<open>int\<close> is.
  The product is a Python int and \<open>k\<close> a natural number (a negative \<open>k\<close> never reaches
  the base cases). The tests run in the order of the digits, and the first division that
  raises ends the call.
\<close>

primrec fill_row :: "int \<Rightarrow> nat \<Rightarrow> error + row list" where
  "fill_row product 0 = Inr (if product = 1 then [[]] else [])"
| "fill_row product (Suc k) =
     (case collect (map (\<lambda>d.
        case truediv (of_int product) d of
          Inl e \<Rightarrow> Inl e
        | Inr q \<Rightarrow>
            if is_integer q
            then (case fill_row (product div d) k of
                    Inl e \<Rightarrow> Inl e
                  | Inr rests \<Rightarrow> Inr (map ((#) d) rests))
            else Inr []) [1..9])
      of Inl e \<Rightarrow> Inl e | Inr rows \<Rightarrow> Inr (remdups rows))"

text \<open>
  The same function on a product that is a 64-bit integer of numpy: \<^verbatim>\<open>product / d\<close>
  is numpy's division, and \<^verbatim>\<open>product // d\<close> is floor division that returns a 64-bit
  integer again (a quotient by a digit is not larger in magnitude, so it does not wrap).
\<close>

primrec fill_row_int64 :: "int \<Rightarrow> nat \<Rightarrow> row list" where
  "fill_row_int64 product 0 = (if product = 1 then [[]] else [])"
| "fill_row_int64 product (Suc k) =
     remdups (concat (map (\<lambda>d.
        if is_integer (truediv_int64 product d)
        then map ((#) d) (fill_row_int64 (product div d) k)
        else []) [1..9]))"

subsection \<open>Solving a whole puzzle\<close>

text \<open>
  \<^verbatim>\<open>numpy.divide(col_prods, row1)\<close>. A list whose entries all fit a 64-bit integer, or
  a float array, is divided in binary64: each entry is converted to binary64 and the quotient
  is rounded. A list holding a larger int becomes an array of Python objects and each
  entry is divided by Python's \<^verbatim>\<open>/\<close>. The two arguments have the same length wherever
  \<^verbatim>\<open>solutions\<close> calls it.
\<close>

definition divide_np :: "rat list \<Rightarrow> int list \<Rightarrow> error + rat list" where
  "divide_np cols row =
     (if list_all (\<lambda>c. - (2 ^ 63) \<le> c \<and> c < 2 ^ 64) cols
      then Inr (map2 (\<lambda>c d. round_double (round_double c / of_int d)) cols row)
      else collect (map2 (\<lambda>c d. case truediv c d of Inl e \<Rightarrow> Inl e | Inr q \<Rightarrow> Inr [q])
             cols row))"

text \<open>
  A run of a generator: the values it yields, in order, and the exception that ended it,
  if one did.
\<close>

type_synonym 'a gen = "'a list \<times> error option"

text \<open>A \<^verbatim>\<open>for\<close> loop in a generator: the bodies run in turn until one raises.\<close>

fun gen_for :: "'a list \<Rightarrow> ('a \<Rightarrow> 'b gen) \<Rightarrow> 'b gen" where
  "gen_for [] body = ([], None)"
| "gen_for (x # xs) body =
     (case body x of
        (ys, Some e) \<Rightarrow> (ys, Some e)
      | (ys, None) \<Rightarrow> (case gen_for xs body of (zs, r) \<Rightarrow> (ys @ zs, r)))"

text \<open>
  \<^verbatim>\<open>
  def solutions(puzzle) -> Iterable[Table]:
      row_prods, col_prods = puzzle
      if not row_prods and all(c == 1 for c in col_prods):
          yield []
      elif row_prods and all(c == int(c) for c in col_prods):
          for row1 in fill_row(row_prods[0], len(col_prods)):
              for rows in solutions(Puzzle(row_prods[1:], divide(col_prods, row1))):
                  yield [row1, *rows]
  \<close>
  Python does not fix the order in which a set is iterated. The parameter \<open>iter\<close> is that
  order: it maps the elements of the set, as inserted, to the sequence the loop visits.
  The function is written once for each kind of row product; the two differ in the
  \<^verbatim>\<open>fill_row\<close> they reach.
\<close>

function solutions :: "(row list \<Rightarrow> row list) \<Rightarrow> puzzle \<Rightarrow> table gen" where
  "solutions iter (Puzzle [] cs) =
     (if list_all (\<lambda>c. c = 1) cs then ([[]], None) else ([], None))"
| "solutions iter (Puzzle (r # rs) cs) =
     (if list_all is_integer cs
      then (case fill_row r (length cs) of
              Inl e \<Rightarrow> ([], Some e)
            | Inr rows \<Rightarrow>
                gen_for (iter rows) (\<lambda>row1.
                  case divide_np cs row1 of
                    Inl e \<Rightarrow> ([], Some e)
                  | Inr cs' \<Rightarrow>
                      (case solutions iter (Puzzle rs cs') of
                         (tables, r) \<Rightarrow> (map ((#) row1) tables, r))))
      else ([], None))"
| "solutions iter (Puzzle_int64 [] cs) =
     (if list_all (\<lambda>c. c = 1) cs then ([[]], None) else ([], None))"
| "solutions iter (Puzzle_int64 (r # rs) cs) =
     (if list_all is_integer cs
      then gen_for (iter (fill_row_int64 r (length cs))) (\<lambda>row1.
             case divide_np cs row1 of
               Inl e \<Rightarrow> ([], Some e)
             | Inr cs' \<Rightarrow>
                 (case solutions iter (Puzzle_int64 rs cs') of
                    (tables, r) \<Rightarrow> (map ((#) row1) tables, r)))
      else ([], None))"
  by pat_completeness auto
termination
  by (relation "measure (\<lambda>(iter, p). length (row_prods p))") auto

text \<open>An iteration order visits every element of the set once.\<close>

definition set_order :: "(row list \<Rightarrow> row list) \<Rightarrow> bool" where
  "set_order iter = (\<forall>rows. mset (iter rows) = mset rows)"

definition insertion_order :: "row list \<Rightarrow> row list" where
  "insertion_order rows = rows"

text \<open>\<^verbatim>\<open>next(S, None)\<close>: the next value or \<open>None\<close>, and the generator after it.\<close>

fun next_gen :: "'a gen \<Rightarrow> error + ('a option \<times> 'a gen)" where
  "next_gen (x # xs, r) = Inr (Some x, (xs, r))"
| "next_gen ([], None) = Inr (None, ([], None))"
| "next_gen ([], Some e) = Inl e"

text \<open>\<^verbatim>\<open>def solve(puzzle): return next(solutions(puzzle), None)\<close>\<close>

definition solve :: "(row list \<Rightarrow> row list) \<Rightarrow> puzzle \<Rightarrow> error + table option" where
  "solve iter p =
     (case next_gen (solutions iter p) of Inl e \<Rightarrow> Inl e | Inr (first, S) \<Rightarrow> Inr first)"

text \<open>
  \<^verbatim>\<open>
  def well_formed(puzzle) -> bool:
      S = solutions(puzzle)
      first, second = next(S, None), next(S, None)
      return first is not None and second is None
  \<close>
\<close>

definition well_formed :: "(row list \<Rightarrow> row list) \<Rightarrow> puzzle \<Rightarrow> error + bool" where
  "well_formed iter p =
     (case next_gen (solutions iter p) of
        Inl e \<Rightarrow> Inl e
      | Inr (first, S) \<Rightarrow>
          (case next_gen S of
             Inl e \<Rightarrow> Inl e
           | Inr (second, S') \<Rightarrow> Inr (first \<noteq> None \<and> second = None)))"

subsection \<open>Making a puzzle from a table\<close>

text \<open>
  \<^verbatim>\<open>numpy.prod\<close> multiplies in 64-bit integers (the default integer of numpy on a 64-bit
  platform), which wrap silently. Its results are 64-bit integers of numpy, kept here as
  the integers they stand for.
\<close>

definition int64 :: "int \<Rightarrow> int" where
  "int64 n = (n + 2 ^ 63) mod 2 ^ 64 - 2 ^ 63"

definition prod_np :: "int list \<Rightarrow> int" where
  "prod_np xs = foldl (\<lambda>a x. int64 (a * x)) 1 xs"

text \<open>
  \<^verbatim>\<open>
  def table_puzzle(table) -> Puzzle:
      return Puzzle([prod(row) for row in table],
                    [prod(col) for col in transpose(table)])
  \<close>
  The rows of a table have one length, and \<^verbatim>\<open>numpy.transpose\<close> lists its columns,
  as \<^const>\<open>transpose\<close> does. Every column product fits 64 bits, so
  \<^verbatim>\<open>divide\<close> takes them on its binary64 path.
\<close>

definition table_puzzle :: "table \<Rightarrow> puzzle" where
  "table_puzzle t =
     Puzzle_int64 (map prod_np t) (map (\<lambda>col. of_int (prod_np col)) (transpose t))"

subsection \<open>What the puzzle asks for\<close>

text \<open>
  A table satisfies a puzzle when it has one row per row product, every row has one digit
  1..9 per column product, and the digits of every row and of every column multiply to the
  product required of it.
\<close>

definition solves :: "table \<Rightarrow> int list \<Rightarrow> int list \<Rightarrow> bool" where
  "solves t rs cs =
     (length t = length rs \<and>
      list_all (\<lambda>row. length row = length cs \<and> list_all (\<lambda>x. 1 \<le> x \<and> x \<le> 9) row) t \<and>
      map prod_list t = rs \<and>
      map (\<lambda>j. prod_list (map (\<lambda>row. row ! j) t)) [0..<length cs] = cs)"

subsection \<open>The enumeration with exact integer arithmetic\<close>

text \<open>
  The specification's algorithm: the same two enumerations, with the divisibility tests
  done by integer remainder.
\<close>

primrec fill_row_exact :: "int \<Rightarrow> nat \<Rightarrow> row list" where
  "fill_row_exact product 0 = (if product = 1 then [[]] else [])"
| "fill_row_exact product (Suc k) =
     remdups (concat (map (\<lambda>d.
        if product mod d = 0 then map ((#) d) (fill_row_exact (product div d) k) else [])
        [1..9]))"

primrec solutions_exact :: "(row list \<Rightarrow> row list) \<Rightarrow> int list \<Rightarrow> int list \<Rightarrow> table list" where
  "solutions_exact iter [] cs = (if list_all (\<lambda>c. c = 1) cs then [[]] else [])"
| "solutions_exact iter (r # rs) cs =
     concat (map (\<lambda>row1.
        if list_all (\<lambda>(c, d). c mod d = 0) (zip cs row1)
        then map ((#) row1) (solutions_exact iter rs (map2 (div) cs row1))
        else []) (iter (fill_row_exact r (length cs))))"

section \<open>Properties of the rounding\<close>

subsection \<open>The nearest integer\<close>

lemma rne_of_int: "rne (of_int n) = n"
  by (simp add: rne_def)

lemma rne_close: "\<bar>of_int (rne x) - x\<bar> \<le> 1/2"
  unfolding rne_def Let_def by (auto simp: abs_if) linarith+

lemma rne_nonneg: "0 \<le> x \<Longrightarrow> 0 \<le> rne x"
  unfolding rne_def Let_def by auto

lemma rne_le_int: "x \<le> of_int k \<Longrightarrow> rne x \<le> k"
proof -
  assume a: "x \<le> of_int k"
  have f: "\<lfloor>x\<rfloor> \<le> k" using a by (simp add: floor_le_iff) 
  show ?thesis
  proof (cases "x = of_int k")
    case True then show ?thesis by (simp add: rne_of_int)
  next
    case False
    with a have "x < of_int k" by simp
    then have "\<lfloor>x\<rfloor> < k" by (simp add: floor_less_iff)
    then show ?thesis unfolding rne_def Let_def by auto
  qed
qed

lemma rne_near: "\<bar>x - of_int m\<bar> < 1/2 \<Longrightarrow> rne x = m"
proof (cases "of_int m \<le> x")
  case True
  assume a: "\<bar>x - of_int m\<bar> < 1/2"
  with True have "\<lfloor>x\<rfloor> = m" by (intro floor_unique) (auto simp: abs_if split: if_splits)
  with a True show ?thesis by (auto simp: rne_def Let_def abs_if split: if_splits)
next
  case False
  assume a: "\<bar>x - of_int m\<bar> < 1/2"
  with False have "\<lfloor>x\<rfloor> = m - 1" by (intro floor_unique) (auto simp: abs_if split: if_splits)
  with a False show ?thesis by (auto simp: rne_def Let_def abs_if split: if_splits)
qed

lemma rne_tie: "x = of_int m + 1/2 \<Longrightarrow> rne x = (if even m then m else m + 1)"
proof -
  assume x: "x = of_int m + 1/2"
  then have "\<lfloor>x\<rfloor> = m" by (intro floor_unique) auto
  with x show ?thesis by (auto simp: rne_def Let_def)
qed

subsection \<open>The binary exponent\<close>

lemma pow2_bitlen_le:
  assumes "0 < p"
  shows "(2::rat) powi (bitlen p - 1) \<le> of_int p" "(of_int p :: rat) < 2 powi (bitlen p)"
proof -
  from bitlen_bounds[OF assms] have a: "2 ^ nat (bitlen p - 1) \<le> p" and b: "p < 2 ^ nat (bitlen p)" by auto
  have ge: "1 \<le> bitlen p" using assms bitlen_eq_zero_iff[of p] bitlen_nonneg[of p] by linarith
  have "(2::rat) powi (bitlen p - 1) = 2 ^ nat (bitlen p - 1)" using ge by (simp add: power_int_def)
  also have "\<dots> = of_int (2 ^ nat (bitlen p - 1))" by simp
  also have "\<dots> \<le> of_int p" using a by (simp only: of_int_le_iff)
  finally show "(2::rat) powi (bitlen p - 1) \<le> of_int p" .
  have "(of_int p :: rat) < of_int (2 ^ nat (bitlen p))" using b by (simp only: of_int_less_iff)
  also have "\<dots> = 2 powi (bitlen p)" using ge by (simp add: power_int_def)
  finally show "(of_int p :: rat) < 2 powi (bitlen p)" .
qed

lemma ilog2_bounds:
  assumes "0 < x"
  shows "2 powi (ilog2 x) \<le> x" "x < 2 powi (ilog2 x + 1)"
proof -
  obtain p q where pq: "quotient_of x = (p, q)" by force
  have q: "0 < q" using quotient_of_denom_pos[OF pq] .
  have x: "x = of_int p / of_int q" using quotient_of_div[OF pq] .
  have p: "0 < p" using assms q x by (simp add: zero_less_divide_iff)
  define e where "e = bitlen p - bitlen q"
  note P = pow2_bitlen_le[OF p] and Q = pow2_bitlen_le[OF q]
  have qpos: "(0::rat) < of_int q" using q by simp
  have "x < 2 powi (bitlen p) / 2 powi (bitlen q - 1)"
    unfolding x using P(2) Q(1) p
    by (intro frac_less) auto
  also have "\<dots> = 2 powi (e + 1)" unfolding e_def by (simp add: power_int_diff power_int_add)
  finally have up: "x < 2 powi (e + 1)" .
  have "2 powi (e - 1) = (2::rat) powi (bitlen p - 1) / 2 powi (bitlen q)"
    unfolding e_def by (simp add: power_int_diff power_int_add)
  also have "\<dots> \<le> x" unfolding x using P(1) Q(2) qpos p
    by (intro frac_le) auto
  finally have lo: "2 powi (e - 1) \<le> x" .
  have il: "ilog2 x = (if 2 powi e \<le> x then e else e - 1)"
    unfolding ilog2_def pq e_def by (simp add: Let_def)
  show "2 powi (ilog2 x) \<le> x" using lo by (simp add: il)
  show "x < 2 powi (ilog2 x + 1)" using up by (simp add: il)
qed

lemma pow2_le_cancel: "(2::rat) powi a \<le> 2 powi b \<Longrightarrow> a \<le> b"
  using power_int_strict_increasing[of b a "2::rat"] by (cases "a \<le> b") auto

lemma pow2_less_cancel: "(2::rat) powi a < 2 powi b \<Longrightarrow> a < b"
  using power_int_increasing[of b a "2::rat"] by (cases "a < b") auto

lemma pow2_nat: "0 \<le> e \<Longrightarrow> (2::rat) powi e = of_int (2 ^ nat e)"
  by (simp add: power_int_def)

lemma ilog2_unique:
  assumes "0 < x" "2 powi e \<le> x" "x < 2 powi (e + 1)"
  shows "ilog2 x = e"
proof -
  note B = ilog2_bounds[OF assms(1)]
  from B(1) assms(3) have "(2::rat) powi ilog2 x < 2 powi (e + 1)" by simp
  then have "ilog2 x < e + 1" by (rule pow2_less_cancel)
  moreover from B(2) assms(2) have "(2::rat) powi e < 2 powi (ilog2 x + 1)" by simp
  then have "e < ilog2 x + 1" by (rule pow2_less_cancel)
  ultimately show ?thesis by simp
qed

subsection \<open>Rounding to binary64\<close>

lemma round_double_sgn:
  "x \<noteq> 0 \<Longrightarrow> round_double x =
     sgn x * (of_int (rne (\<bar>x\<bar> / 2 powi (max (ilog2 \<bar>x\<bar>) (- 1022) - 52))) *
       2 powi (max (ilog2 \<bar>x\<bar>) (- 1022) - 52))"
  by (simp add: round_double_def Let_def mult.assoc)

lemma round_double_minus: "round_double (- x) = - round_double x"
  by (simp add: round_double_def Let_def)

lemma round_double_nonneg: "0 \<le> x \<Longrightarrow> 0 \<le> round_double x"
  by (cases "x = 0") (auto simp: round_double_def Let_def intro!: mult_nonneg_nonneg rne_nonneg)

lemma round_double_nonpos: "x \<le> 0 \<Longrightarrow> round_double x \<le> 0"
  using round_double_nonneg[of "- x"] by (simp add: round_double_minus)

lemma round_double_bound:
  assumes "\<bar>x\<bar> \<le> 2 powi n" "- 1022 \<le> n"
  shows "\<bar>round_double x\<bar> \<le> 2 powi n"
proof (cases "x = 0")
  case True then show ?thesis by (simp add: round_double_def)
next
  case False
  define a where "a = \<bar>x\<bar>"
  have apos: "0 < a" using False by (simp add: a_def)
  define e where "e = max (ilog2 a) (- 1022)"
  define u where "u = (2::rat) powi (e - 52)"
  have upos: "0 < u" by (simp add: u_def)
  have "2 powi (ilog2 a) \<le> a" using ilog2_bounds(1)[OF apos] .
  also have "a \<le> 2 powi n" using assms(1) by (simp add: a_def)
  finally have "ilog2 a \<le> n" by (rule pow2_le_cancel)
  then have en: "e \<le> n" using assms(2) by (simp add: e_def)
  have K: "2 powi n / u = of_int (2 ^ nat (n - e + 52))"
    unfolding u_def using en by (simp add: power_int_diff[symmetric] pow2_nat)
  have "a / u \<le> 2 powi n / u" using assms(1) upos by (simp add: a_def divide_right_mono)
  then have "rne (a / u) \<le> 2 ^ nat (n - e + 52)" unfolding K by (rule rne_le_int)
  then have "(of_int (rne (a / u)) :: rat) \<le> of_int (2 ^ nat (n - e + 52))" by (simp only: of_int_le_iff)
  then have "of_int (rne (a / u)) * u \<le> 2 powi n / u * u" unfolding K[symmetric] using upos by (intro mult_right_mono) auto
  then have le: "of_int (rne (a / u)) * u \<le> 2 powi n" using upos by simp
  have nn: "0 \<le> of_int (rne (a / u)) * u" using upos apos by (intro mult_nonneg_nonneg) (auto intro!: rne_nonneg)
  have "round_double x = sgn x * (of_int (rne (a / u)) * u)"
    using round_double_sgn[OF False] by (simp add: a_def u_def e_def)
  moreover have "0 \<le> rne (a / u)" using upos apos by (auto intro!: rne_nonneg)
  ultimately have "\<bar>round_double x\<bar> = of_int (rne (a / u)) * u"
    using upos False by (simp add: abs_mult abs_sgn_eq)
  then show ?thesis using le by simp
qed

text \<open>Every integer from 0 to \<open>2 ^ 53\<close> is a binary64 value.\<close>

lemma round_double_of_int:
  assumes "0 \<le> n" "n < 2 ^ 53"
  shows "round_double (of_int n) = of_int n"
proof (cases "n = 0")
  case True then show ?thesis by (simp add: round_double_def)
next
  case False
  define x :: rat where "x = of_int n"
  have xpos: "0 < x" and x1: "1 \<le> x" using assms False by (simp_all add: x_def)
  define e where "e = ilog2 x"
  note B = ilog2_bounds[OF xpos, folded e_def]
  have "(2::rat) powi 0 \<le> x" using x1 by simp
  also note B(2)
  finally have "0 < e + 1" by (rule pow2_less_cancel)
  then have e0: "0 \<le> e" by simp
  have "x < of_int (2 ^ 53)" using assms(2) unfolding x_def by (simp only: of_int_less_iff)
  then have "x < 2 powi 53" by simp
  with B(1) have "(2::rat) powi e < 2 powi 53" by simp
  then have e53: "e < 53" by (rule pow2_less_cancel)
  define u where "u = (2::rat) powi (e - 52)"
  have upos: "0 < u" by (simp add: u_def)
  have "(2::rat) powi (e - 52) * 2 powi (52 - e) = 2 powi ((e - 52) + (52 - e))"
    by (subst power_int_add) auto
  then have "u * 2 powi (52 - e) = 1" by (simp add: u_def)
  then have "1 / u = 2 powi (52 - e)" using upos by (simp add: field_simps)
  then have ui: "1 / u = of_int (2 ^ nat (52 - e))"
    using e53 by (simp add: pow2_nat)
  have "x / u = x * (1 / u)" by simp
  also have "\<dots> = of_int (n * 2 ^ nat (52 - e))" unfolding ui x_def by simp
  finally have "rne (x / u) = n * 2 ^ nat (52 - e)" by (simp only: rne_of_int)
  then have "of_int (rne (x / u)) * u = x * (1 / u) * u" unfolding ui x_def by simp
  also have "\<dots> = x" using upos by simp
  finally have r: "of_int (rne (x / u)) * u = x" .
  have "max (ilog2 \<bar>x\<bar>) (- 1022) = e" using e0 xpos by (simp add: e_def)
  then have "round_double x = sgn x * (of_int (rne (x / u)) * u)"
    using round_double_sgn[of x] xpos by (simp add: u_def)
  then show ?thesis using r xpos by (simp add: x_def)
qed

lemma round_double_pos_eq:
  assumes "0 < x" "2 powi e \<le> x" "x < 2 powi (e + 1)" "- 1022 \<le> e"
    and "rne (x / 2 powi (e - 52)) = m"
  shows "round_double x = of_int m * 2 powi (e - 52)"
proof -
  have "ilog2 \<bar>x\<bar> = e" using assms(1-3) by (intro ilog2_unique) auto
  then show ?thesis using assms(1,4,5) round_double_sgn[of x] by simp
qed

subsection \<open>Quotients that are not integers\<close>

text \<open>
  Below \<open>2 ^ 53\<close>, a quotient by a digit that does not divide is not rounded to an
  integer: an integer as close to it as half a unit in the last place would force the
  dividend up to \<open>2 ^ 53\<close>.
\<close>

lemma is_integerE: "is_integer x \<Longrightarrow> \<exists>k. x = of_int k"
  unfolding is_integer_def by metis

lemma is_integer_of_int: "is_integer (of_int k)"
  by (simp add: is_integer_def)

lemma not_integer_between: "of_int k < x \<Longrightarrow> x < of_int k + 1 \<Longrightarrow> \<not> is_integer x"
proof
  assume a: "of_int k < x" "x < of_int k + 1" and "is_integer x"
  then obtain m where m: "x = of_int m" using is_integerE by blast
  with a have "rat_of_int k < of_int m" "rat_of_int m < of_int (k + 1)" by simp_all
  then have "k < m" "m < k + 1" by (simp_all only: of_int_less_iff)
  then show False by simp
qed

lemma round_double_quot_not_integer:
  assumes c: "0 < c" "c < 2 ^ 53" and d: "1 \<le> d" "d \<le> 9" and nd: "\<not> d dvd c"
  shows "\<not> is_integer (round_double (of_int c / of_int d))"
proof
  define x :: rat where "x = of_int c / of_int d"
  assume "is_integer (round_double (of_int c / of_int d))"
  then obtain k where k: "round_double x = of_int k" unfolding x_def using is_integerE by blast
  have dpos: "(0::rat) < of_int d" using d by simp
  have xpos: "0 < x" using c d by (simp add: x_def)
  define e where "e = ilog2 x"
  note B = ilog2_bounds[OF xpos, folded e_def]
  have "(1::rat) \<le> of_int c" using c by simp
  then have "1 / of_int d \<le> x" unfolding x_def using dpos by (simp add: divide_right_mono)
  moreover have "(1::rat) / 9 \<le> 1 / of_int d" using d by (simp add: field_simps)
  moreover have "(2::rat) powi (- 4) < 1 / 9" by (simp add: power_int_minus_divide)
  ultimately have "(2::rat) powi (- 4) < x" by linarith
  with B(2) have "(2::rat) powi (- 4) < 2 powi (e + 1)" by linarith
  then have elo: "- 5 < e" using pow2_less_cancel by fastforce
  have "x \<le> of_int c" unfolding x_def using c d by (simp add: field_simps mult_le_cancel_left1)
  also have "(of_int c :: rat) < of_int (2 ^ 53)" using c by (simp only: of_int_less_iff)
  finally have x53: "x < 2 powi 53" by simp
  with B(1) have "(2::rat) powi e < 2 powi 53" by simp
  then have e53: "e < 53" by (rule pow2_less_cancel)
  define u where "u = (2::rat) powi (e - 52)"
  have upos: "0 < u" by (simp add: u_def)
  define m where "m = rne (x / u)"
  have "max (ilog2 \<bar>x\<bar>) (- 1022) = e" using elo xpos by (simp add: e_def)
  then have rd: "round_double x = of_int m * u"
    using round_double_sgn[of x] xpos by (simp add: u_def m_def)
  have "\<bar>of_int m - x / u\<bar> \<le> 1 / 2" unfolding m_def by (rule rne_close)
  then have "\<bar>of_int m - x / u\<bar> * u \<le> 1 / 2 * u" using upos by (intro mult_right_mono) auto
  moreover have "(of_int m - x / u) * u = of_int m * u - x"
    using upos by (simp add: left_diff_distrib)
  then have "\<bar>of_int m - x / u\<bar> * u = \<bar>of_int m * u - x\<bar>"
    using upos abs_mult_pos[of u "of_int m - x / u"] by simp
  ultimately have close: "\<bar>of_int k - x\<bar> \<le> u / 2" using rd k by simp
  then have "\<bar>of_int k - x\<bar> * of_int d \<le> u / 2 * of_int d" using dpos by (intro mult_right_mono) auto
  moreover have "(of_int k - x) * of_int d = of_int (k * d - c)"
    using dpos by (simp add: left_diff_distrib x_def)
  then have "\<bar>of_int k - x\<bar> * of_int d = \<bar>of_int (k * d - c)\<bar>"
    using dpos abs_mult_pos[of "of_int d" "of_int k - x"] by simp
  ultimately have 1: "\<bar>rat_of_int (k * d - c)\<bar> \<le> u * of_int d / 2" by simp
  have "k * d - c \<noteq> 0" using nd by (metis dvd_triv_right eq_iff_diff_eq_0)
  then have "1 \<le> \<bar>k * d - c\<bar>" by simp
  then have "(1::rat) \<le> of_int \<bar>k * d - c\<bar>" by (simp only: of_int_1_le_iff)
  then have "(1::rat) \<le> \<bar>of_int (k * d - c)\<bar>" by simp
  with 1 have ud: "2 \<le> u * of_int d" by simp
  have "(2::rat) powi 52 * 2 powi (e - 52) = 2 powi (52 + (e - 52))"
    by (subst power_int_add) auto
  then have pe: "2 powi e = 2 ^ 52 * u" by (simp add: u_def)
  have "2 ^ 52 * (2::rat) \<le> 2 ^ 52 * (u * of_int d)" using ud by (intro mult_left_mono) auto
  also have "\<dots> = 2 powi e * of_int d" by (simp add: pe)
  also have "\<dots> \<le> x * of_int d" using B(1) dpos by (intro mult_right_mono) auto
  also have "\<dots> = of_int c" using dpos by (simp add: x_def)
  finally have "(of_int (2 ^ 53) :: rat) \<le> of_int c" by simp
  then have "2 ^ 53 \<le> c" by (simp only: of_int_le_iff)
  with c show False by simp
qed

subsection \<open>True division\<close>

lemma abs_divide_le:
  fixes a :: rat
  assumes "1 \<le> d"
  shows "\<bar>a / of_int d\<bar> \<le> \<bar>a\<bar>"
proof -
  have dpos: "(1::rat) \<le> of_int d" using assms by simp
  have "1 * \<bar>a\<bar> \<le> of_int d * \<bar>a\<bar>" using dpos by (intro mult_right_mono) auto
  then show ?thesis using dpos by (simp add: field_simps)
qed

lemma truediv_ok:
  assumes "\<bar>a\<bar> \<le> 2 ^ 1023" "1 \<le> d"
  shows "truediv a d = Inr (round_double (a / of_int d))"
proof -
  have dpos: "(1::rat) \<le> of_int d" using assms(2) by simp
  have "\<bar>a / of_int d\<bar> \<le> \<bar>a\<bar>" using dpos by (simp add: field_simps mult_le_cancel_left1)
  then have "\<bar>a / of_int d\<bar> \<le> 2 powi 1023" using assms(1) by simp
  then have "\<bar>round_double (a / of_int d)\<bar> \<le> 2 powi 1023" by (rule round_double_bound) simp
  then have "\<not> 2 ^ 1024 \<le> \<bar>round_double (a / of_int d)\<bar>" by simp
  then show ?thesis using assms(2) by (simp add: truediv_def Let_def)
qed

lemma truediv_Inr_D: "truediv a d = Inr q \<Longrightarrow> q = round_double (a / of_int d)"
  by (auto simp: truediv_def Let_def split: if_splits)

lemma is_integer_quotient_iff:
  assumes "0 \<le> p" "p < 2 ^ 53" "1 \<le> d" "d \<le> 9"
  shows "is_integer (round_double (of_int p / of_int d)) \<longleftrightarrow> p mod d = 0"
proof (cases "d dvd p")
  case True
  then obtain k where k: "p = d * k" ..
  have k0: "0 \<le> k" using assms k by (simp add: zero_le_mult_iff)
  have "k \<le> d * k" using k0 assms(3) by (simp add: mult_le_cancel_right1)
  then have "k < 2 ^ 53" using assms(2) k by simp
  then have "round_double (of_int k) = of_int k" using k0 by (intro round_double_of_int)
  moreover have "(of_int p :: rat) / of_int d = of_int k" using assms(3) k by simp
  ultimately show ?thesis using True by (simp add: is_integer_of_int)
next
  case False
  then have "p \<noteq> 0" by auto
  then have "0 < p" using assms by simp
  from round_double_quot_not_integer[OF this assms(2-4) False] False
  show ?thesis by (simp add: dvd_eq_mod_eq_0)
qed

lemma is_integer_truediv_int64_iff:
  assumes "0 \<le> p" "p < 2 ^ 53" "1 \<le> d" "d \<le> 9"
  shows "is_integer (truediv_int64 p d) \<longleftrightarrow> p mod d = 0"
  using is_integer_quotient_iff[OF assms] round_double_of_int[OF assms(1,2)]
  by (simp add: truediv_int64_def)

section \<open>The row enumerator\<close>

lemma collect_map_Inr:
  "(\<And>x. x \<in> set xs \<Longrightarrow> f x = Inr (g x)) \<Longrightarrow> collect (map f xs) = Inr (concat (map g xs))"
  by (induction xs) auto

lemma collect_eq_Inr:
  "collect rs = Inr ys \<Longrightarrow> (\<forall>r \<in> set rs. \<exists>xs. r = Inr xs) \<and> ys = concat (map projr rs)"
proof (induction rs arbitrary: ys)
  case Nil then show ?case by simp
next
  case (Cons a rs)
  show ?case
  proof (cases a)
    case (Inl e) with Cons.prems show ?thesis by simp
  next
    case (Inr xs)
    with Cons.prems obtain zs where zs: "collect rs = Inr zs" "ys = xs @ zs"
      by (cases "collect rs") auto
    from Cons.IH[OF zs(1)] Inr zs(2) show ?thesis by auto
  qed
qed

lemma collect_ok:
  "(\<And>r. r \<in> set rs \<Longrightarrow> \<exists>xs. r = Inr xs) \<Longrightarrow> \<exists>ys. collect rs = Inr ys"
proof (induction rs)
  case Nil then show ?case by simp
next
  case (Cons a rs)
  then obtain xs where "a = Inr xs" by auto
  moreover from Cons obtain ys where "collect rs = Inr ys" by auto
  ultimately show ?case by simp
qed

lemma collect_singletons:
  "collect (map (\<lambda>x. case f x of Inl e \<Rightarrow> Inl e | Inr q \<Rightarrow> Inr [q]) xs) = Inr ys \<Longrightarrow>
     ys = map (\<lambda>x. projr (f x)) xs \<and> (\<forall>x \<in> set xs. \<exists>q. f x = Inr q)"
proof (induction xs arbitrary: ys)
  case Nil then show ?case by simp
next
  case (Cons a xs)
  show ?case
  proof (cases "f a")
    case (Inl e) with Cons.prems show ?thesis by simp
  next
    case (Inr q)
    with Cons.prems obtain zs where zs: "collect (map (\<lambda>x. case f x of Inl e \<Rightarrow> Inl e | Inr q \<Rightarrow> Inr [q]) xs) = Inr zs" "ys = q # zs"
      by (cases "collect (map (\<lambda>x. case f x of Inl e \<Rightarrow> Inl e | Inr q \<Rightarrow> Inr [q]) xs)") auto
    from Cons.IH[OF zs(1)] Inr zs(2) show ?thesis by auto
  qed
qed

lemma digits_upto: "d \<in> set [1..9] \<longleftrightarrow> 1 \<le> d \<and> d \<le> (9::int)"
  by simp

lemma div_bounds:
  assumes "0 \<le> p" "p < b" "1 \<le> (d::int)"
  shows "0 \<le> p div d" "p div d < b"
proof -
  show "0 \<le> p div d" using assms by (simp add: pos_imp_zdiv_nonneg_iff)
  have "p div d \<le> p div 1" using assms by (intro zdiv_mono2) auto
  then show "p div d < b" using assms by simp
qed

lemma abs_div_le_self:
  assumes "1 \<le> (d::int)"
  shows "\<bar>p div d\<bar> \<le> \<bar>p\<bar>"
proof (cases "0 \<le> p")
  case True
  then have "0 \<le> p div d" using assms by (simp add: pos_imp_zdiv_nonneg_iff)
  moreover have "p div d \<le> p div 1" using True assms by (intro zdiv_mono2) auto
  ultimately show ?thesis using True by simp
next
  case False
  then have "p div d < 0" using assms by (simp add: pos_imp_zdiv_neg_iff)
  moreover have "p div 1 \<le> p div d" using False assms by (intro zdiv_mono2_neg) auto
  ultimately show ?thesis using False by simp
qed

text \<open>
  Below \<open>2 ^ 53\<close> the enumerator with float tests is the one with remainders, on a
  Python int and on a 64-bit integer of numpy.
\<close>

lemma fill_row_exact_range:
  "0 \<le> p \<Longrightarrow> p < 2 ^ 53 \<Longrightarrow> fill_row p k = Inr (fill_row_exact p k)"
proof (induction k arbitrary: p)
  case 0
  then show ?case by simp
next
  case (Suc k)
  let ?f = "\<lambda>d. case truediv (of_int p) d of
          Inl e \<Rightarrow> Inl e
        | Inr q \<Rightarrow>
            if is_integer q
            then (case fill_row (p div d) k of
                    Inl e \<Rightarrow> Inl e
                  | Inr rests \<Rightarrow> Inr (map ((#) d) rests))
            else Inr []"
  let ?g = "\<lambda>d. if p mod d = 0 then map ((#) d) (fill_row_exact (p div d) k) else []"
  have "?f d = Inr (?g d)" if "d \<in> set [1..9]" for d
  proof -
    have d: "1 \<le> d" "d \<le> 9" using that by simp_all
    have "\<bar>rat_of_int p\<bar> \<le> of_int (2 ^ 1023)" using Suc.prems by (simp only: of_int_abs[symmetric] of_int_le_iff) simp
    then have t: "truediv (of_int p) d = Inr (round_double (of_int p / of_int d))"
      using d by (intro truediv_ok) simp_all
    have r: "fill_row (p div d) k = Inr (fill_row_exact (p div d) k)"
      using div_bounds[OF Suc.prems d(1)] by (intro Suc.IH)
    show ?thesis using is_integer_quotient_iff[OF Suc.prems d] by (simp add: t r)
  qed
  then have "collect (map ?f [1..9]) = Inr (concat (map ?g [1..9]))"
    by (rule collect_map_Inr)
  then show ?case by simp
qed

lemma fill_row_int64_exact_range:
  "0 \<le> p \<Longrightarrow> p < 2 ^ 53 \<Longrightarrow> fill_row_int64 p k = fill_row_exact p k"
proof (induction k arbitrary: p)
  case 0
  then show ?case by simp
next
  case (Suc k)
  let ?f = "\<lambda>d. if is_integer (truediv_int64 p d)
          then map ((#) d) (fill_row_int64 (p div d) k) else []"
  let ?g = "\<lambda>d. if p mod d = 0 then map ((#) d) (fill_row_exact (p div d) k) else []"
  have "?f d = ?g d" if "d \<in> set [1..9]" for d
  proof -
    have d: "1 \<le> d" "d \<le> 9" using that by simp_all
    have r: "fill_row_int64 (p div d) k = fill_row_exact (p div d) k"
      using div_bounds[OF Suc.prems d(1)] by (intro Suc.IH)
    show ?thesis using is_integer_truediv_int64_iff[OF Suc.prems d] by (simp add: r)
  qed
  then have "map ?f [1..9] = map ?g [1..9]" by (intro map_cong refl)
  then show ?case by (simp only: fill_row_int64.simps fill_row_exact.simps)
qed

text \<open>What holds of \<^verbatim>\<open>fill_row\<close> at every product.\<close>

lemma fill_row_Suc_mem:
  assumes "fill_row p (Suc k) = Inr rows"
  shows "row \<in> set rows \<longleftrightarrow>
    (\<exists>d rest q rests. 1 \<le> d \<and> d \<le> 9 \<and> truediv (of_int p) d = Inr q \<and> is_integer q \<and>
       fill_row (p div d) k = Inr rests \<and> rest \<in> set rests \<and> row = d # rest)"
proof -
  let ?f = "\<lambda>d. case truediv (of_int p) d of
          Inl e \<Rightarrow> Inl e
        | Inr q \<Rightarrow>
            if is_integer q
            then (case fill_row (p div d) k of
                    Inl e \<Rightarrow> Inl e
                  | Inr rests \<Rightarrow> Inr (map ((#) d) rests))
            else Inr []"
  from assms obtain ys where ys: "collect (map ?f [1..9]) = Inr ys" "rows = remdups ys"
    by (auto split: sum.splits)
  from collect_eq_Inr[OF ys(1)]
  have ok: "\<And>d. d \<in> set [1..9] \<Longrightarrow> \<exists>xs. ?f d = Inr xs"
    and yseq: "ys = concat (map projr (map ?f [1..9]))" by auto
  have "row \<in> set rows \<longleftrightarrow> (\<exists>d \<in> set [1..9]. row \<in> set (projr (?f d)))"
    unfolding ys(2) yseq by auto
  also have "\<dots> \<longleftrightarrow> (\<exists>d rest q rests. 1 \<le> d \<and> d \<le> 9 \<and> truediv (of_int p) d = Inr q \<and> is_integer q \<and>
       fill_row (p div d) k = Inr rests \<and> rest \<in> set rests \<and> row = d # rest)"
    (is "?L \<longleftrightarrow> ?R")
  proof
    assume ?L
    then obtain d where d: "d \<in> set [1..9]" "row \<in> set (projr (?f d))" by blast
    from ok[OF d(1)] obtain xs where xs: "?f d = Inr xs" by blast
    with d(2) have "row \<in> set xs" by simp
    from xs obtain q where q: "truediv (of_int p) d = Inr q" by (cases "truediv (of_int p) d") auto
    from xs q \<open>row \<in> set xs\<close> have iq: "is_integer q" by (auto split: if_splits)
    from xs q iq obtain rests where rests: "fill_row (p div d) k = Inr rests" "xs = map ((#) d) rests"
      by (cases "fill_row (p div d) k") auto
    from rests(2) \<open>row \<in> set xs\<close> obtain rest where "rest \<in> set rests" "row = d # rest" by auto
    with q iq rests(1) d(1) show ?R by simp blast
  next
    assume ?R
    then obtain d rest q rests where *: "1 \<le> d" "d \<le> 9" "truediv (of_int p) d = Inr q" "is_integer q"
       "fill_row (p div d) k = Inr rests" "rest \<in> set rests" "row = d # rest" by blast
    then have "d \<in> set [1..9]" "row \<in> set (projr (?f d))" by simp_all
    then show ?L by blast
  qed
  finally show ?thesis .
qed

lemma fill_row_distinct: "fill_row p k = Inr rows \<Longrightarrow> distinct rows"
  by (cases k) (auto split: sum.splits if_splits)

lemma fill_row_int64_distinct: "distinct (fill_row_int64 p k)"
  by (cases k) simp_all

lemma fill_row_shape:
  "fill_row p k = Inr rows \<Longrightarrow> row \<in> set rows \<Longrightarrow>
     length row = k \<and> list_all (\<lambda>x. 1 \<le> x \<and> x \<le> 9) row"
proof (induction k arbitrary: p rows row)
  case 0
  then show ?case by (auto split: if_splits)
next
  case (Suc k)
  from Suc.prems(2) fill_row_Suc_mem[OF Suc.prems(1), of row]
  obtain d rest rests where "1 \<le> d" "d \<le> 9" "fill_row (p div d) k = Inr rests" "rest \<in> set rests" "row = d # rest"
    by blast
  with Suc.IH[of "p div d" rests rest] show ?case by simp
qed

lemma fill_row_negative:
  "p < 0 \<Longrightarrow> fill_row p k = Inr rows \<Longrightarrow> rows = []"
proof (induction k arbitrary: p rows)
  case 0
  then show ?case by (auto split: if_splits)
next
  case (Suc k)
  have "row \<notin> set rows" for row
  proof
    assume "row \<in> set rows"
    with fill_row_Suc_mem[OF Suc.prems(2), of row]
    obtain d rest rests where *: "1 \<le> d" "fill_row (p div d) k = Inr rests" "rest \<in> set rests"
      by blast
    have "p div d < 0" using Suc.prems(1) *(1) by (simp add: pos_imp_zdiv_neg_iff)
    from Suc.IH[OF this *(2)] *(3) show False by simp
  qed
  then show ?case by (cases rows) auto
qed

lemma fill_row_ok:
  "\<bar>p\<bar> \<le> 2 ^ 1023 \<Longrightarrow> \<exists>rows. fill_row p k = Inr rows"
proof (induction k arbitrary: p)
  case 0
  then show ?case by simp
next
  case (Suc k)
  let ?f = "\<lambda>d. case truediv (of_int p) d of
          Inl e \<Rightarrow> Inl e
        | Inr q \<Rightarrow>
            if is_integer q
            then (case fill_row (p div d) k of
                    Inl e \<Rightarrow> Inl e
                  | Inr rests \<Rightarrow> Inr (map ((#) d) rests))
            else Inr []"
  have "\<exists>xs. r = Inr xs" if "r \<in> set (map ?f [1..9])" for r
  proof -
    from that obtain d where d: "1 \<le> d" "d \<le> 9" "r = ?f d" by auto
    have "\<bar>rat_of_int p\<bar> \<le> of_int (2 ^ 1023)" using Suc.prems by (simp only: of_int_abs[symmetric] of_int_le_iff)
    then have t: "truediv (of_int p) d = Inr (round_double (of_int p / of_int d))"
      using d by (intro truediv_ok) simp_all
    have "\<bar>p div d\<bar> \<le> \<bar>p\<bar>" using d(1) by (rule abs_div_le_self)
    then have "\<bar>p div d\<bar> \<le> 2 ^ 1023" using Suc.prems by simp
    from Suc.IH[OF this] obtain rests where "fill_row (p div d) k = Inr rests" by blast
    then show ?thesis by (simp add: d(3) t)
  qed
  from collect_ok[OF this] obtain ys where "collect (map ?f [1..9]) = Inr ys" by blast
  then show ?case by simp
qed

section \<open>Generators, iteration orders, and the two callers\<close>

lemma gen_for_pure:
  "(\<And>x. x \<in> set xs \<Longrightarrow> body x = (g x, None)) \<Longrightarrow> gen_for xs body = (concat (map g xs), None)"
  by (induction xs) auto

lemma gen_for_empty:
  "(\<And>x. x \<in> set xs \<Longrightarrow> fst (body x) = []) \<Longrightarrow> fst (gen_for xs body) = []"
proof (induction xs)
  case Nil then show ?case by simp
next
  case (Cons x xs)
  then have "fst (body x) = []" "fst (gen_for xs body) = []" by auto
  then show ?case by (cases "body x"; cases "gen_for xs body") (auto split: option.splits)
qed

lemma gen_for_distinct:
  assumes "distinct xs"
    and "\<And>x. x \<in> set xs \<Longrightarrow> distinct (fst (body x)) \<and> (\<forall>t \<in> set (fst (body x)). key t = x)"
  shows "distinct (fst (gen_for xs body)) \<and> (\<forall>t \<in> set (fst (gen_for xs body)). key t \<in> set xs)"
  using assms
proof (induction xs)
  case Nil then show ?case by simp
next
  case (Cons x xs)
  from Cons.prems have x: "distinct (fst (body x))" "\<forall>t \<in> set (fst (body x)). key t = x" "x \<notin> set xs"
    by auto
  from Cons have IH: "distinct (fst (gen_for xs body))" "\<forall>t \<in> set (fst (gen_for xs body)). key t \<in> set xs"
    by auto
  show ?case using x IH
    by (cases "body x"; cases "gen_for xs body") (auto split: option.splits)
qed

lemma gen_for_snd:
  "(\<And>x. x \<in> set xs \<Longrightarrow> snd (body x) = None) \<Longrightarrow> snd (gen_for xs body) = None"
proof (induction xs)
  case Nil then show ?case by simp
next
  case (Cons x xs)
  then have "snd (body x) = None" "snd (gen_for xs body) = None" by auto
  then show ?case by (cases "body x"; cases "gen_for xs body") auto
qed

lemma gen_for_single: "gen_for [x] body = body x"
  by (cases "body x") (auto split: option.splits)

lemma set_order_set: "set_order iter \<Longrightarrow> set (iter rows) = set rows"
  unfolding set_order_def by (metis set_mset_mset)

lemma set_order_distinct: "set_order iter \<Longrightarrow> distinct (iter rows) = distinct rows"
  unfolding set_order_def by (metis mset_eq_imp_distinct_iff)

lemma set_order_Nil: "set_order iter \<Longrightarrow> iter [] = []"
  unfolding set_order_def by (metis mset_zero_iff)

lemma set_order_single: "set_order iter \<Longrightarrow> iter [x] = [x]"
  unfolding set_order_def by (metis mset_single_iff_right mset.simps(1,2))

lemma set_order_insertion_order: "set_order insertion_order"
  by (simp add: set_order_def insertion_order_def)

lemma solve_eq:
  "solve iter p = (case solutions iter p of
      (t # ts, r) \<Rightarrow> Inr (Some t)
    | ([], None) \<Rightarrow> Inr None
    | ([], Some e) \<Rightarrow> Inl e)"
  unfolding solve_def
  by (cases "solutions iter p" rule: next_gen.cases) simp_all

lemma well_formed_eq:
  "well_formed iter p = (case solutions iter p of
      ([], None) \<Rightarrow> Inr False
    | ([], Some e) \<Rightarrow> Inl e
    | ([t], None) \<Rightarrow> Inr True
    | ([t], Some e) \<Rightarrow> Inl e
    | (t # t' # ts, r) \<Rightarrow> Inr False)"
proof (cases "solutions iter p")
  case (Pair ts r)
  show ?thesis
  proof (cases ts)
    case Nil
    with Pair show ?thesis by (cases r) (simp_all add: well_formed_def)
  next
    case (Cons t ts')
    with Pair show ?thesis by (cases ts'; cases r) (simp_all add: well_formed_def)
  qed
qed

text \<open>\<^verbatim>\<open>well_formed\<close> looks at no more than the first two values of the generator.\<close>

lemma well_formed_two_pulls:
  assumes "take 2 (fst (solutions iter p)) = take 2 (fst (solutions iter' q))"
    and "length (fst (solutions iter p)) < 2 \<Longrightarrow> snd (solutions iter p) = snd (solutions iter' q)"
  shows "well_formed iter p = well_formed iter' q"
proof -
  obtain ts r where p: "solutions iter p = (ts, r)" by (cases "solutions iter p")
  obtain us s where q: "solutions iter' q = (us, s)" by (cases "solutions iter' q")
  from assms show ?thesis
    unfolding well_formed_eq p q
    by (cases ts; cases us; cases "tl ts"; cases "tl us"; cases r; cases s) auto
qed

section \<open>The solver\<close>

lemma is_integer_numeral [simp]: "is_integer (numeral n)" "is_integer 1" "is_integer 0"
  by (simp_all add: is_integer_def)

lemma solutions_not_integer:
  "\<not> list_all is_integer cs \<Longrightarrow> solutions iter (Puzzle rs cs) = ([], None)"
proof (cases rs)
  case Nil
  assume "\<not> list_all is_integer cs"
  then obtain c where c: "c \<in> set cs" "\<not> is_integer c" by (auto simp: list_all_iff)
  then have "c \<noteq> 1" using is_integer_numeral(2) by blast
  with c(1) have "\<not> list_all (\<lambda>c. c = 1) cs" unfolding list_all_iff by blast
  then show ?thesis using Nil by simp
next
  case (Cons r rs')
  assume "\<not> list_all is_integer cs"
  then show ?thesis using Cons by simp
qed

lemma divide_np_exact:
  assumes cs: "list_all (\<lambda>c. 0 \<le> c \<and> c < 2 ^ 53) cs"
    and len: "length row = length cs"
    and dg: "list_all (\<lambda>x. 1 \<le> x \<and> x \<le> 9) row"
  shows "divide_np (map of_int cs) row =
           Inr (map2 (\<lambda>c d. round_double (of_int c / of_int d)) cs row)"
proof -
  have rng: "list_all (\<lambda>c. - (2 ^ 63) \<le> c \<and> c < 2 ^ 64) (map rat_of_int cs)"
  proof -
    have "- (2 ^ 63) \<le> rat_of_int c \<and> rat_of_int c < 2 ^ 64" if "c \<in> set cs" for c
    proof -
      from that cs have c: "0 \<le> c" "c < 2 ^ 53" by (auto simp: list_all_iff)
      have "rat_of_int c < of_int (2 ^ 64)" using c by (simp only: of_int_less_iff) simp
      moreover have "(0::rat) \<le> of_int c" using c by simp
      ultimately show ?thesis by simp
    qed
    then show ?thesis by (simp add: list_all_iff)
  qed
  have "map2 (\<lambda>c d. round_double (round_double c / of_int d)) (map rat_of_int cs) row
      = map2 (\<lambda>c d. round_double (of_int c / of_int d)) cs row"
    using cs by (auto simp: zip_map1 list_all_iff round_double_of_int dest!: set_zip_leftD)
  then show ?thesis using rng by (simp add: divide_np_def)
qed

lemma map2_divisible:
  assumes cs: "list_all (\<lambda>c. 0 \<le> c \<and> c < 2 ^ 53) cs"
    and len: "length row = length cs"
    and dg: "list_all (\<lambda>x. 1 \<le> x \<and> x \<le> 9) row"
  shows "list_all is_integer (map2 (\<lambda>c d. round_double (of_int c / of_int d)) cs row)
           \<longleftrightarrow> list_all (\<lambda>(c, d). c mod d = 0) (zip cs row)"
    and "list_all (\<lambda>(c, d). c mod d = 0) (zip cs row) \<Longrightarrow>
           map2 (\<lambda>c d. round_double (of_int c / of_int d)) cs row = map of_int (map2 (div) cs row)"
    and "list_all (\<lambda>c. 0 \<le> c \<and> c < 2 ^ 53) (map2 (div) cs row)"
proof -
  have P: "0 \<le> c \<and> c < 2 ^ 53 \<and> 1 \<le> d \<and> d \<le> 9" if "(c, d) \<in> set (zip cs row)" for c d
    using that cs dg by (auto simp: list_all_iff dest: set_zip_leftD set_zip_rightD)
  show "list_all is_integer (map2 (\<lambda>c d. round_double (of_int c / of_int d)) cs row)
           \<longleftrightarrow> list_all (\<lambda>(c, d). c mod d = 0) (zip cs row)"
    using P by (auto simp: list_all_iff is_integer_quotient_iff)
  show "map2 (\<lambda>c d. round_double (of_int c / of_int d)) cs row = map of_int (map2 (div) cs row)"
    if "list_all (\<lambda>(c, d). c mod d = 0) (zip cs row)"
  proof -
    have "round_double (of_int c / of_int d) = of_int (c div d)" if m: "(c, d) \<in> set (zip cs row)" for c d
    proof -
      from m \<open>list_all (\<lambda>(c, d). c mod d = 0) (zip cs row)\<close> have "d dvd c"
        by (auto simp: list_all_iff dvd_eq_mod_eq_0)
      then have "(of_int c :: rat) / of_int d = of_int (c div d)" using P[OF m]
        by (metis dvd_div_mult_self of_int_mult of_int_eq_0_iff nonzero_eq_divide_eq not_one_le_zero) 
      moreover have "0 \<le> c div d" "c div d < 2 ^ 53" using P[OF m] div_bounds[of c "2 ^ 53" d] by auto
      ultimately show ?thesis by (simp add: round_double_of_int)
    qed
    then show ?thesis by auto
  qed
  show "list_all (\<lambda>c. 0 \<le> c \<and> c < 2 ^ 53) (map2 (div) cs row)"
    using P div_bounds[of _ "2 ^ 53"] by (auto simp: list_all_iff)
qed

text \<open>Below \<open>2 ^ 53\<close> the solver is the one with exact arithmetic, and raises nothing.\<close>

lemma solutions_exact_range:
  assumes "set_order iter"
  shows "list_all (\<lambda>r. 0 \<le> r \<and> r < 2 ^ 53) rs \<Longrightarrow> list_all (\<lambda>c. 0 \<le> c \<and> c < 2 ^ 53) cs \<Longrightarrow>
     solutions iter (Puzzle rs (map of_int cs)) = (solutions_exact iter rs cs, None)"
proof (induction rs arbitrary: cs)
  case Nil
  have "list_all (\<lambda>c. c = 1) (map rat_of_int cs) = list_all (\<lambda>c. c = 1) cs"
    by (simp add: list_all_iff)
  then show ?case by simp
next
  case (Cons r rs)
  from Cons.prems have r: "0 \<le> r" "r < 2 ^ 53" and rs: "list_all (\<lambda>r. 0 \<le> r \<and> r < 2 ^ 53) rs" by auto
  define rows where "rows = fill_row_exact r (length cs)"
  have fr: "fill_row r (length cs) = Inr rows" unfolding rows_def using r by (rule fill_row_exact_range)
  let ?body = "\<lambda>row1. case divide_np (map of_int cs) row1 of
                    Inl e \<Rightarrow> ([], Some e)
                  | Inr cs' \<Rightarrow>
                      (case solutions iter (Puzzle rs cs') of
                         (tables, r) \<Rightarrow> (map ((#) row1) tables, r))"
  let ?g = "\<lambda>row1. if list_all (\<lambda>(c, d). c mod d = 0) (zip cs row1)
        then map ((#) row1) (solutions_exact iter rs (map2 (div) cs row1))
        else []"
  have "?body row1 = (?g row1, None)" if "row1 \<in> set (iter rows)" for row1
  proof -
    from that have "row1 \<in> set rows" using set_order_set[OF assms] by simp
    from fill_row_shape[OF fr this] have sh: "length row1 = length cs" "list_all (\<lambda>x. 1 \<le> x \<and> x \<le> 9) row1"
      by auto
    note D = divide_np_exact[OF Cons.prems(2) sh] and M = map2_divisible[OF Cons.prems(2) sh]
    show ?thesis
    proof (cases "list_all (\<lambda>(c, d). c mod d = 0) (zip cs row1)")
      case True
      have d: "divide_np (map of_int cs) row1 = Inr (map of_int (map2 (div) cs row1))"
        unfolding D M(2)[OF True] ..
      have s: "solutions iter (Puzzle rs (map of_int (map2 (div) cs row1)))
                 = (solutions_exact iter rs (map2 (div) cs row1), None)"
        by (rule Cons.IH[OF rs M(3)])
      show ?thesis by (simp only: d s sum.case prod.case True if_True)
    next
      case False
      with M(1) have "\<not> list_all is_integer (map2 (\<lambda>c d. round_double (of_int c / of_int d)) cs row1)" by simp
      from solutions_not_integer[OF this] False show ?thesis by (simp add: D)
    qed
  qed
  then have "gen_for (iter rows) ?body = (concat (map ?g (iter rows)), None)" by (rule gen_for_pure)
  moreover have "list_all is_integer (map rat_of_int cs)" by (simp add: list_all_iff is_integer_of_int)
  ultimately show ?case by (simp add: fr rows_def)
qed

text \<open>
  With row products below \<open>2 ^ 53\<close>, a puzzle of 64-bit integers of numpy is solved as the
  puzzle of the same Python ints is.
\<close>

lemma solutions_int64_below_2_53:
  "list_all (\<lambda>r. 0 \<le> r \<and> r < 2 ^ 53) rs \<Longrightarrow>
     solutions iter (Puzzle_int64 rs cs) = solutions iter (Puzzle rs cs)"
proof (induction rs arbitrary: cs)
  case Nil
  then show ?case by simp
next
  case (Cons r rs)
  then have r: "0 \<le> r" "r < 2 ^ 53" and rs: "list_all (\<lambda>r. 0 \<le> r \<and> r < 2 ^ 53) rs"
    by simp_all
  have f: "fill_row r (length cs) = Inr (fill_row_int64 r (length cs))"
    using fill_row_exact_range[OF r] fill_row_int64_exact_range[OF r] by simp
  have IH: "solutions iter (Puzzle_int64 rs cs') = solutions iter (Puzzle rs cs')" for cs'
    by (rule Cons.IH[OF rs])
  show ?case by (simp only: solutions.simps f sum.case IH)
qed

text \<open>No table is yielded twice.\<close>

lemma solutions_distinct_aux:
  assumes "set_order iter"
  shows "distinct (fst (solutions iter (Puzzle rs cs)))"
proof (induction rs arbitrary: cs)
  case Nil
  then show ?case by simp
next
  case (Cons r rs)
  show ?case
  proof (cases "list_all is_integer cs")
    case False
    then show ?thesis by simp
  next
    case True
    show ?thesis
    proof (cases "fill_row r (length cs)")
      case (Inl e)
      with True show ?thesis by simp
    next
      case (Inr rows)
      let ?body = "\<lambda>row1. case divide_np cs row1 of
                    Inl e \<Rightarrow> ([], Some e)
                  | Inr cs' \<Rightarrow>
                      (case solutions iter (Puzzle rs cs') of
                         (tables, r) \<Rightarrow> (map ((#) row1) tables, r))"
      have d: "distinct (iter rows)"
        using fill_row_distinct[OF Inr] set_order_distinct[OF assms] by simp
      have b: "distinct (fst (?body x)) \<and> (\<forall>t \<in> set (fst (?body x)). hd t = x)" for x
      proof (cases "divide_np cs x")
        case (Inl e)
        then show ?thesis by simp
      next
        case (Inr cs')
        with Cons.IH[of cs'] show ?thesis
          by (cases "solutions iter (Puzzle rs cs')") (auto simp: distinct_map inj_on_def)
      qed
      from gen_for_distinct[of "iter rows" ?body hd, OF d] b
      have "distinct (fst (gen_for (iter rows) ?body))" by blast
      with True Inr show ?thesis by simp
    qed
  qed
qed

lemma solutions_distinct_aux_int64:
  assumes "set_order iter"
  shows "distinct (fst (solutions iter (Puzzle_int64 rs cs)))"
proof (induction rs arbitrary: cs)
  case Nil
  then show ?case by simp
next
  case (Cons r rs)
  show ?case
  proof (cases "list_all is_integer cs")
    case False
    then show ?thesis by simp
  next
    case True
    let ?rows = "fill_row_int64 r (length cs)"
    let ?body = "\<lambda>row1. case divide_np cs row1 of
                  Inl e \<Rightarrow> ([], Some e)
                | Inr cs' \<Rightarrow>
                    (case solutions iter (Puzzle_int64 rs cs') of
                       (tables, r) \<Rightarrow> (map ((#) row1) tables, r))"
    have d: "distinct (iter ?rows)"
      using fill_row_int64_distinct set_order_distinct[OF assms] by simp
    have b: "distinct (fst (?body x)) \<and> (\<forall>t \<in> set (fst (?body x)). hd t = x)" for x
    proof (cases "divide_np cs x")
      case (Inl e)
      then show ?thesis by simp
    next
      case (Inr cs')
      with Cons.IH[of cs'] show ?thesis
        by (cases "solutions iter (Puzzle_int64 rs cs')") (auto simp: distinct_map inj_on_def)
    qed
    from gen_for_distinct[of "iter ?rows" ?body hd, OF d] b
    have "distinct (fst (gen_for (iter ?rows) ?body))" by blast
    with True show ?thesis by simp
  qed
qed

lemma solutions_distinct: "set_order iter \<Longrightarrow> distinct (fst (solutions iter p))"
  by (cases p) (simp_all add: solutions_distinct_aux solutions_distinct_aux_int64)

text \<open>A column product that is zero or negative never becomes 1; a negative row product has no row.\<close>

lemma divide_np_nonpos:
  assumes "divide_np cs row = Inr cs'" "length row = length cs" "list_all (\<lambda>x. 1 \<le> x \<and> x \<le> 9) row"
    and "\<exists>c \<in> set cs. c \<le> 0"
  shows "\<exists>c \<in> set cs'. c \<le> 0"
proof -
  from assms(4) obtain i where i: "i < length cs" "cs ! i \<le> 0" by (auto simp: in_set_conv_nth)
  have dpos: "(0::rat) < of_int (row ! i)"
    using assms(2,3) i(1) by (auto simp: list_all_length)
  have q: "cs ! i / of_int (row ! i) \<le> 0" using i(2) dpos by (simp add: divide_le_0_iff)
  have iz: "i < length (zip cs row)" using i(1) assms(2) by simp
  show ?thesis
  proof (cases "list_all (\<lambda>c. - (2 ^ 63) \<le> c \<and> c < 2 ^ 64) cs")
    case True
    with assms(1) have cs': "cs' = map2 (\<lambda>c d. round_double (round_double c / of_int d)) cs row"
      by (simp add: divide_np_def)
    have "round_double (cs ! i) \<le> 0" using i(2) by (rule round_double_nonpos)
    then have "round_double (cs ! i) / of_int (row ! i) \<le> 0" using dpos by (simp add: divide_le_0_iff)
    then have "round_double (round_double (cs ! i) / of_int (row ! i)) \<le> 0" by (rule round_double_nonpos)
    moreover have "cs' ! i = round_double (round_double (cs ! i) / of_int (row ! i))"
      unfolding cs' using iz by simp
    moreover have "i < length cs'" unfolding cs' using iz by simp
    ultimately show ?thesis by (metis nth_mem)
  next
    case False
    with assms(1) have "collect (map2 (\<lambda>c d. case truediv c d of Inl e \<Rightarrow> Inl e | Inr q \<Rightarrow> Inr [q]) cs row) = Inr cs'"
      by (simp add: divide_np_def)
    then have c: "collect (map (\<lambda>x. case truediv (fst x) (snd x) of Inl e \<Rightarrow> Inl e | Inr q \<Rightarrow> Inr [q]) (zip cs row)) = Inr cs'"
      by (simp add: split_def)
    from collect_singletons[OF c]
    have cs': "cs' = map (\<lambda>x. projr (truediv (fst x) (snd x))) (zip cs row)"
      and ok: "\<And>x. x \<in> set (zip cs row) \<Longrightarrow> \<exists>q. truediv (fst x) (snd x) = Inr q" by auto
    have "zip cs row ! i \<in> set (zip cs row)" using iz by (rule nth_mem)
    then have "(cs ! i, row ! i) \<in> set (zip cs row)" using iz by simp
    from ok[OF this] obtain q where q': "truediv (cs ! i) (row ! i) = Inr q" by auto
    from truediv_Inr_D[OF q'] q have "q \<le> 0" by (simp add: round_double_nonpos)
    moreover have "cs' ! i = q" unfolding cs' using iz q' by simp
    moreover have "i < length cs'" unfolding cs' using iz by simp
    ultimately show ?thesis by (metis nth_mem)
  qed
qed

lemma solutions_nonpos_col:
  assumes "set_order iter"
  shows "\<exists>c \<in> set cs. c \<le> 0 \<Longrightarrow> fst (solutions iter (Puzzle rs cs)) = []"
proof (induction rs arbitrary: cs)
  case Nil
  then obtain c where "c \<in> set cs" "c \<noteq> 1" by force
  then have "\<not> list_all (\<lambda>c. c = 1) cs" unfolding list_all_iff by blast
  then show ?case by simp
next
  case (Cons r rs)
  show ?case
  proof (cases "list_all is_integer cs")
    case False
    then show ?thesis by simp
  next
    case True
    show ?thesis
    proof (cases "fill_row r (length cs)")
      case (Inl e)
      with True show ?thesis by simp
    next
      case (Inr rows)
      let ?body = "\<lambda>row1. case divide_np cs row1 of
                    Inl e \<Rightarrow> ([], Some e)
                  | Inr cs' \<Rightarrow>
                      (case solutions iter (Puzzle rs cs') of
                         (tables, r) \<Rightarrow> (map ((#) row1) tables, r))"
      have "fst (?body x) = []" if "x \<in> set (iter rows)" for x
      proof (cases "divide_np cs x")
        case (Inl e)
        then show ?thesis by simp
      next
        case cs': (Inr cs')
        from that have "x \<in> set rows" using set_order_set[OF assms] by simp
        from fill_row_shape[OF Inr this] divide_np_nonpos[OF cs' _ _ Cons.prems]
        have "\<exists>c \<in> set cs'. c \<le> 0" by simp
        from Cons.IH[OF this] cs' show ?thesis
          by (cases "solutions iter (Puzzle rs cs')") auto
      qed
      then have "fst (gen_for (iter rows) ?body) = []" by (rule gen_for_empty)
      with True Inr show ?thesis by simp
    qed
  qed
qed

lemma solutions_negative_row:
  assumes "set_order iter"
  shows "\<exists>r \<in> set rs. r < 0 \<Longrightarrow> fst (solutions iter (Puzzle rs cs)) = []"
proof (induction rs arbitrary: cs)
  case Nil
  then show ?case by simp
next
  case (Cons r rs)
  show ?case
  proof (cases "list_all is_integer cs")
    case False
    then show ?thesis by simp
  next
    case True
    show ?thesis
    proof (cases "fill_row r (length cs)")
      case (Inl e)
      with True show ?thesis by simp
    next
      case (Inr rows)
      let ?body = "\<lambda>row1. case divide_np cs row1 of
                    Inl e \<Rightarrow> ([], Some e)
                  | Inr cs' \<Rightarrow>
                      (case solutions iter (Puzzle rs cs') of
                         (tables, r) \<Rightarrow> (map ((#) row1) tables, r))"
      show ?thesis
      proof (cases "r < 0")
        case neg: True
        from fill_row_negative[OF neg Inr] have "iter rows = []" using set_order_Nil[OF assms] by simp
        with True Inr show ?thesis by simp
      next
        case False
        with Cons.prems have later: "\<exists>r \<in> set rs. r < 0" by auto
        have "fst (?body x) = []" for x
        proof (cases "divide_np cs x")
          case (Inl e)
          then show ?thesis by simp
        next
          case cs': (Inr cs')
          from Cons.IH[OF later, of cs'] cs' show ?thesis
            by (cases "solutions iter (Puzzle rs cs')") auto
        qed
        then have "fst (gen_for (iter rows) ?body) = []" by (intro gen_for_empty)
        with True Inr show ?thesis by simp
      qed
    qed
  qed
qed

text \<open>Nothing is raised while the products stay in range.\<close>

lemma divide_np_ok:
  assumes cs: "list_all (\<lambda>c. \<bar>c\<bar> \<le> 2 ^ 63) cs" and dg: "list_all (\<lambda>x. 1 \<le> x \<and> x \<le> 9) row"
  shows "\<exists>cs'. divide_np cs row = Inr cs' \<and> list_all (\<lambda>c. \<bar>c\<bar> \<le> 2 ^ 63) cs'"
proof -
  have rng: "list_all (\<lambda>c. - (2 ^ 63) \<le> c \<and> c < 2 ^ 64) cs"
    using cs by (auto simp: list_all_iff abs_le_iff)
  have "\<bar>round_double (round_double c / of_int d)\<bar> \<le> 2 ^ 63" if "(c, d) \<in> set (zip cs row)" for c d
  proof -
    from that cs dg have c: "\<bar>c\<bar> \<le> 2 ^ 63" and d: "1 \<le> d"
      by (auto simp: list_all_iff dest: set_zip_leftD set_zip_rightD)
    have dpos: "(1::rat) \<le> of_int d" using d by simp
    from c have "\<bar>c\<bar> \<le> 2 powi 63" by simp
    then have 1: "\<bar>round_double c\<bar> \<le> 2 powi 63" by (rule round_double_bound) simp
    have "\<bar>round_double c / of_int d\<bar> \<le> \<bar>round_double c\<bar>"
      using d by (rule abs_divide_le)
    with 1 have "\<bar>round_double c / of_int d\<bar> \<le> 2 powi 63" by simp
    then have "\<bar>round_double (round_double c / of_int d)\<bar> \<le> 2 powi 63" by (rule round_double_bound) simp
    then show ?thesis by simp
  qed
  then have "list_all (\<lambda>c. \<bar>c\<bar> \<le> 2 ^ 63) (map2 (\<lambda>c d. round_double (round_double c / of_int d)) cs row)"
    by (auto simp: list_all_iff)
  then show ?thesis using rng by (simp add: divide_np_def)
qed

lemma solutions_ok:
  assumes "set_order iter"
  shows "list_all (\<lambda>r. \<bar>r\<bar> \<le> 2 ^ 1023) rs \<Longrightarrow> list_all (\<lambda>c. \<bar>c\<bar> \<le> 2 ^ 63) cs \<Longrightarrow>
     snd (solutions iter (Puzzle rs cs)) = None"
proof (induction rs arbitrary: cs)
  case Nil
  then show ?case by simp
next
  case (Cons r rs)
  from Cons.prems have r: "\<bar>r\<bar> \<le> 2 ^ 1023" and rs: "list_all (\<lambda>r. \<bar>r\<bar> \<le> 2 ^ 1023) rs" by auto
  from fill_row_ok[OF r] obtain rows where rows: "fill_row r (length cs) = Inr rows" by blast
  let ?body = "\<lambda>row1. case divide_np cs row1 of
                    Inl e \<Rightarrow> ([], Some e)
                  | Inr cs' \<Rightarrow>
                      (case solutions iter (Puzzle rs cs') of
                         (tables, r) \<Rightarrow> (map ((#) row1) tables, r))"
  have "snd (?body x) = None" if "x \<in> set (iter rows)" for x
  proof -
    from that have "x \<in> set rows" using set_order_set[OF assms] by simp
    from fill_row_shape[OF rows this] have "list_all (\<lambda>x. 1 \<le> x \<and> x \<le> 9) x" by simp
    from divide_np_ok[OF Cons.prems(2) this] obtain cs' where
      cs': "divide_np cs x = Inr cs'" "list_all (\<lambda>c. \<bar>c\<bar> \<le> 2 ^ 63) cs'" by blast
    from Cons.IH[OF rs cs'(2)] cs'(1) show ?thesis
      by (cases "solutions iter (Puzzle rs cs')") auto
  qed
  then have "snd (gen_for (iter rows) ?body) = None" by (rule gen_for_snd)
  then show ?case using rows by simp
qed

lemma negative_puzzle_empty:
  assumes so: "set_order iter"
    and rs: "list_all (\<lambda>r. \<bar>r\<bar> \<le> 2 ^ 63) rs"
    and cs: "list_all (\<lambda>c. \<bar>c\<bar> \<le> 2 ^ 63) cs"
    and neg: "(\<exists>r \<in> set rs. r < 0) \<or> (\<exists>c \<in> set cs. c < 0)"
  shows "solutions iter (Puzzle rs (map of_int cs)) = ([], None)"
proof -
  have "fst (solutions iter (Puzzle rs (map of_int cs))) = []"
  proof (cases "\<exists>r \<in> set rs. r < 0")
    case True
    then show ?thesis by (rule solutions_negative_row[OF so])
  next
    case False
    with neg obtain c where "c \<in> set cs" "c < 0" by blast
    then have "rat_of_int c \<in> set (map rat_of_int cs)" "rat_of_int c \<le> 0" by auto
    then have "\<exists>c \<in> set (map rat_of_int cs). c \<le> 0" by blast
    then show ?thesis by (rule solutions_nonpos_col[OF so])
  qed
  moreover have "snd (solutions iter (Puzzle rs (map of_int cs))) = None"
  proof (rule solutions_ok[OF so])
    have "\<bar>r\<bar> \<le> 2 ^ 1023" if "\<bar>r\<bar> \<le> 2 ^ 63" for r :: int
    proof -
      have "(2::int) ^ 63 \<le> 2 ^ 1023" by simp
      with that show ?thesis by linarith
    qed
    then show "list_all (\<lambda>r. \<bar>r\<bar> \<le> 2 ^ 1023) rs" using rs by (auto simp: list_all_iff)
    have "\<bar>rat_of_int c\<bar> \<le> 2 ^ 63" if "\<bar>c\<bar> \<le> 2 ^ 63" for c :: int
    proof -
      from that have "rat_of_int \<bar>c\<bar> \<le> of_int (2 ^ 63)" by (simp only: of_int_le_iff)
      then show ?thesis by simp
    qed
    then show "list_all (\<lambda>c. \<bar>c\<bar> \<le> 2 ^ 63) (map rat_of_int cs)" using cs by (auto simp: list_all_iff)
  qed
  ultimately show ?thesis by (simp add: prod_eq_iff)
qed

section \<open>The enumeration with exact arithmetic is correct\<close>

lemma fill_row_exact_iff:
  "row \<in> set (fill_row_exact p k) \<longleftrightarrow>
     length row = k \<and> list_all (\<lambda>x. 1 \<le> x \<and> x \<le> 9) row \<and> prod_list row = p"
proof (induction k arbitrary: p row)
  case 0
  then show ?case by auto
next
  case (Suc k)
  have "row \<in> set (fill_row_exact p (Suc k)) \<longleftrightarrow>
      (\<exists>d rest. 1 \<le> d \<and> d \<le> 9 \<and> p mod d = 0 \<and> rest \<in> set (fill_row_exact (p div d) k) \<and> row = d # rest)"
    by (auto simp: digits_upto split: if_splits)
  also have "\<dots> \<longleftrightarrow> (\<exists>d rest. 1 \<le> d \<and> d \<le> 9 \<and> p mod d = 0 \<and>
       length rest = k \<and> list_all (\<lambda>x. 1 \<le> x \<and> x \<le> 9) rest \<and> prod_list rest = p div d \<and> row = d # rest)"
    unfolding Suc.IH by simp
  also have "\<dots> \<longleftrightarrow> length row = Suc k \<and> list_all (\<lambda>x. 1 \<le> x \<and> x \<le> 9) row \<and> prod_list row = p"
  proof (cases row)
    case Nil
    then show ?thesis by simp
  next
    case (Cons d rest)
    have "(p mod d = 0 \<and> prod_list rest = p div d) \<longleftrightarrow> d * prod_list rest = p" if "1 \<le> d"
      using that by (auto simp: dvd_eq_mod_eq_0[symmetric])
    then show ?thesis using Cons by auto
  qed
  finally show ?case .
qed

lemma fill_row_exact_distinct: "distinct (fill_row_exact p k)"
  by (cases k) simp_all

lemma distinct_concat_heads:
  "distinct ds \<Longrightarrow> (\<And>d. d \<in> set ds \<Longrightarrow> distinct (f d) \<and> (\<forall>r \<in> set (f d). r \<noteq> [] \<and> hd r = d)) \<Longrightarrow>
     distinct (concat (map f ds))"
proof (induction ds)
  case Nil then show ?case by simp
next
  case (Cons d ds)
  then have "distinct (f d)" "distinct (concat (map f ds))" "d \<notin> set ds"
    and h: "\<forall>r \<in> set (f d). hd r = d" "\<And>e. e \<in> set ds \<Longrightarrow> \<forall>r \<in> set (f e). hd r = e" by auto
  moreover have "set (f d) \<inter> set (concat (map f ds)) = {}"
    using h \<open>d \<notin> set ds\<close> by auto
  ultimately show ?case by simp
qed

lemma fill_row_exact_Suc:
  "fill_row_exact product (Suc k) =
     concat (map (\<lambda>d.
        if product mod d = 0 then map ((#) d) (fill_row_exact (product div d) k) else [])
        [1..9])"
proof -
  have "distinct (concat (map (\<lambda>d.
        if product mod d = 0 then map ((#) d) (fill_row_exact (product div d) k) else [])
        [1..9]))"
    by (rule distinct_concat_heads) (auto simp: distinct_map inj_on_def fill_row_exact_distinct)
  then show ?thesis by simp
qed

lemma fill_row_exact_zero: "fill_row_exact 0 k = []"
proof (induction k)
  case 0 then show ?case by simp
next
  case (Suc k) then show ?case by (simp add: fill_row_exact_Suc del: fill_row_exact.simps(2))
qed

lemma fill_row_exact_single:
  assumes "1 \<le> d" "d \<le> 9"
  shows "fill_row_exact d (Suc 0) = [[d]]"
proof -
  have "row \<in> set (fill_row_exact d (Suc 0)) \<longleftrightarrow> row = [d]" for row
    unfolding fill_row_exact_iff using assms by (cases row) auto
  then have "set (fill_row_exact d (Suc 0)) = set [[d]]" by auto
  then have "mset (fill_row_exact d (Suc 0)) = mset [[d]]"
    using fill_row_exact_distinct[of d "Suc 0"]
    by (intro iffD1[OF set_eq_iff_mset_eq_distinct]) simp_all
  then show ?thesis by simp
qed

lemma solutions_exact_column:
  assumes "set_order iter" "1 \<le> d" "d \<le> 9"
  shows "solutions_exact iter (d # rs) [c] =
     (if c mod d = 0 then map ((#) [d]) (solutions_exact iter rs [c div d]) else [])"
  using assms(2,3) set_order_single[OF assms(1)]
  by (simp add: fill_row_exact_single del: fill_row_exact.simps)

lemma solutions_exact_mset:
  assumes "set_order iter"
  shows "mset (solutions_exact iter rs cs) = mset (solutions_exact insertion_order rs cs)"
proof (induction rs arbitrary: cs)
  case Nil
  then show ?case by simp
next
  case (Cons r rs)
  let ?g = "\<lambda>it row1. if list_all (\<lambda>(c, d). c mod d = 0) (zip cs row1)
        then map ((#) row1) (solutions_exact it rs (map2 (div) cs row1))
        else []"
  define rows where "rows = fill_row_exact r (length cs)"
  have g: "mset (?g iter x) = mset (?g insertion_order x)" for x
    using Cons.IH by simp
  have "mset (concat (map (?g iter) (iter rows))) = (\<Sum>x\<leftarrow>iter rows. mset (?g iter x))"
    by (simp add: mset_concat comp_def)
  also have "\<dots> = (\<Sum>x\<leftarrow>iter rows. mset (?g insertion_order x))"
    by (simp only: g)
  also have "\<dots> = sum_mset (image_mset (\<lambda>x. mset (?g insertion_order x)) (mset (iter rows)))"
    by (simp only: sum_mset_sum_list[symmetric] mset_map)
  also have "mset (iter rows) = mset rows" using assms by (simp add: set_order_def)
  also have "sum_mset (image_mset (\<lambda>x. mset (?g insertion_order x)) (mset rows))
      = (\<Sum>x\<leftarrow>rows. mset (?g insertion_order x))"
    by (simp only: sum_mset_sum_list[symmetric] mset_map)
  also have "\<dots> = mset (concat (map (?g insertion_order) (insertion_order rows)))"
    by (simp add: mset_concat comp_def insertion_order_def)
  finally show ?case by (simp add: rows_def)
qed

lemma columns_iff: "map f [0..<length cs] = cs \<longleftrightarrow> (\<forall>j < length cs. f j = cs ! j)"
proof
  assume eq: "map f [0..<length cs] = cs"
  show "\<forall>j < length cs. f j = cs ! j"
  proof (intro allI impI)
    fix j assume j: "j < length cs"
    then have "map f [0..<length cs] ! j = f j" by simp
    with eq show "f j = cs ! j" by simp
  qed
next
  assume "\<forall>j < length cs. f j = cs ! j"
  then show "map f [0..<length cs] = cs" by (intro nth_equalityI) simp_all
qed

lemma list_all_zip_iff:
  "length xs = length ys \<Longrightarrow>
     list_all (\<lambda>(x, y). P x y) (zip xs ys) \<longleftrightarrow> (\<forall>j < length xs. P (xs ! j) (ys ! j))"
  by (auto simp: list_all_length)

lemma times_eq_iff_div:
  fixes d :: int
  assumes "1 \<le> d"
  shows "d * x = c \<longleftrightarrow> c mod d = 0 \<and> x = c div d"
  using assms by (auto simp: dvd_eq_mod_eq_0[symmetric])

lemma solves_Nil: "solves t [] cs \<longleftrightarrow> t = [] \<and> list_all (\<lambda>c. c = 1) cs"
proof -
  have "map (\<lambda>j. 1) [0..<length cs] = cs \<longleftrightarrow> list_all (\<lambda>c. c = 1) cs"
    unfolding columns_iff list_all_length by auto
  then show ?thesis by (auto simp: solves_def)
qed

lemma solves_Cons:
  assumes len: "length row1 = length cs" and dg: "list_all (\<lambda>x. 1 \<le> x \<and> x \<le> 9) row1"
  shows "solves (row1 # t) (r # rs) cs \<longleftrightarrow>
     prod_list row1 = r \<and> list_all (\<lambda>(c, d). c mod d = 0) (zip cs row1) \<and>
     solves t rs (map2 (div) cs row1)"
proof -
  have d: "1 \<le> row1 ! j" if "j < length cs" for j
    using that len dg by (simp add: list_all_length)
  have cols: "(\<forall>j < length cs. row1 ! j * prod_list (map (\<lambda>row. row ! j) t) = cs ! j) \<longleftrightarrow>
      (\<forall>j < length cs. cs ! j mod row1 ! j = 0) \<and>
      (\<forall>j < length cs. prod_list (map (\<lambda>row. row ! j) t) = cs ! j div row1 ! j)"
    using times_eq_iff_div[OF d] by blast
  have l2: "length (map2 (div) cs row1) = length cs" using len by simp
  have n2: "map2 (div) cs row1 ! j = cs ! j div row1 ! j" if "j < length cs" for j
    using that len by simp
  have z: "list_all (\<lambda>(c, d). c mod d = 0) (zip cs row1) \<longleftrightarrow> (\<forall>j < length cs. cs ! j mod row1 ! j = 0)"
    using len by (simp add: list_all_zip_iff)
  have c1: "map (\<lambda>j. row1 ! j * prod_list (map (\<lambda>row. row ! j) t)) [0..<length cs] = cs \<longleftrightarrow>
      (\<forall>j < length cs. row1 ! j * prod_list (map (\<lambda>row. row ! j) t) = cs ! j)"
    by (rule columns_iff)
  have c2: "map (\<lambda>j. prod_list (map (\<lambda>row. row ! j) t)) [0..<length cs] = map2 (div) cs row1 \<longleftrightarrow>
      (\<forall>j < length cs. prod_list (map (\<lambda>row. row ! j) t) = cs ! j div row1 ! j)"
    using columns_iff[of "\<lambda>j. prod_list (map (\<lambda>row. row ! j) t)" "map2 (div) cs row1"] len
    by simp
  have S1: "solves (row1 # t) (r # rs) cs \<longleftrightarrow>
      length t = length rs \<and>
      list_all (\<lambda>row. length row = length cs \<and> list_all (\<lambda>x. 1 \<le> x \<and> x \<le> 9) row) t \<and>
      prod_list row1 = r \<and> map prod_list t = rs \<and>
      (\<forall>j < length cs. row1 ! j * prod_list (map (\<lambda>row. row ! j) t) = cs ! j)"
    using len dg by (auto simp: solves_def c1)
  have S2: "solves t rs (map2 (div) cs row1) \<longleftrightarrow>
      length t = length rs \<and>
      list_all (\<lambda>row. length row = length cs \<and> list_all (\<lambda>x. 1 \<le> x \<and> x \<le> 9) row) t \<and>
      map prod_list t = rs \<and>
      (\<forall>j < length cs. prod_list (map (\<lambda>row. row ! j) t) = cs ! j div row1 ! j)"
    using len by (simp add: solves_def c2)
  show ?thesis unfolding S1 S2 cols z by blast
qed

lemma solves_Cons_D:
  "solves t (r # rs) cs \<Longrightarrow>
     \<exists>row1 t'. t = row1 # t' \<and> length row1 = length cs \<and> list_all (\<lambda>x. 1 \<le> x \<and> x \<le> 9) row1"
  by (cases t) (auto simp: solves_def)

lemma solutions_exact_iff:
  assumes "set_order iter"
  shows "t \<in> set (solutions_exact iter rs cs) \<longleftrightarrow> solves t rs cs"
proof (induction rs arbitrary: cs t)
  case Nil
  then show ?case by (auto simp: solves_Nil)
next
  case (Cons r rs)
  have rows: "row1 \<in> set (iter (fill_row_exact r (length cs))) \<longleftrightarrow>
      length row1 = length cs \<and> list_all (\<lambda>x. 1 \<le> x \<and> x \<le> 9) row1 \<and> prod_list row1 = r" for row1
    unfolding set_order_set[OF assms] fill_row_exact_iff ..
  show ?case
  proof
    assume "t \<in> set (solutions_exact iter (r # rs) cs)"
    then obtain row1 t' where m: "row1 \<in> set (iter (fill_row_exact r (length cs)))"
      "list_all (\<lambda>(c, d). c mod d = 0) (zip cs row1)"
      "t' \<in> set (solutions_exact iter rs (map2 (div) cs row1))" "t = row1 # t'"
      by (auto simp del: fill_row_exact.simps split: if_splits)
    from m(1) have sh: "length row1 = length cs" "list_all (\<lambda>x. 1 \<le> x \<and> x \<le> 9) row1" "prod_list row1 = r"
      unfolding rows by auto
    from m(3) have "solves t' rs (map2 (div) cs row1)" unfolding Cons.IH .
    with m(2,4) sh show "solves t (r # rs) cs" by (simp add: solves_Cons)
  next
    assume s: "solves t (r # rs) cs"
    from solves_Cons_D[OF s] obtain row1 t' where t: "t = row1 # t'"
      and sh: "length row1 = length cs" "list_all (\<lambda>x. 1 \<le> x \<and> x \<le> 9) row1" by blast
    from s have *: "prod_list row1 = r" "list_all (\<lambda>(c, d). c mod d = 0) (zip cs row1)"
      "solves t' rs (map2 (div) cs row1)"
      unfolding t solves_Cons[OF sh] by auto
    from *(1) sh have "row1 \<in> set (iter (fill_row_exact r (length cs)))" unfolding rows by simp
    moreover from *(3) have "t' \<in> set (solutions_exact iter rs (map2 (div) cs row1))"
      unfolding Cons.IH .
    ultimately show "t \<in> set (solutions_exact iter (r # rs) cs)"
      using *(2) t by (auto simp del: fill_row_exact.simps)
  qed
qed

lemma single_column:
  assumes "solves t rs [c]"
  shows "prod_list rs = c"
proof -
  from assms have len: "\<And>row. row \<in> set t \<Longrightarrow> length row = 1"
    and rs: "map prod_list t = rs"
    and col: "prod_list (map (\<lambda>row. row ! 0) t) = c"
    by (auto simp: solves_def list_all_iff)
  have "row ! 0 = prod_list row" if "row \<in> set t" for row
    using len[OF that] by (cases row) auto
  then have "map (\<lambda>row. row ! 0) t = map prod_list t" by simp
  with rs col show ?thesis by simp
qed

text \<open>
  Where every product is a non-negative integer below \<open>2 ^ 53\<close>, binary64 holds every value
  the notebook computes, and its functions do what their docstrings say.
\<close>

lemma fill_row_correct_below_2_53:
  assumes "0 \<le> p" "p < 2 ^ 53"
  shows "\<exists>rows. fill_row p k = Inr rows \<and> distinct rows \<and>
     set rows = {row. length row = k \<and> list_all (\<lambda>x. 1 \<le> x \<and> x \<le> 9) row \<and> prod_list row = p}"
  using fill_row_exact_range[OF assms, of k] fill_row_exact_distinct[of p k]
  by (auto simp: fill_row_exact_iff)

lemma solutions_correct_below_2_53:
  assumes "set_order iter"
    and "list_all (\<lambda>r. 0 \<le> r \<and> r < 2 ^ 53) rs" "list_all (\<lambda>c. 0 \<le> c \<and> c < 2 ^ 53) cs"
  shows "\<exists>tables. solutions iter (Puzzle rs (map of_int cs)) = (tables, None) \<and> distinct tables \<and>
     set tables = {t. solves t rs cs}"
proof -
  have "solutions iter (Puzzle rs (map of_int cs)) = (solutions_exact iter rs cs, None)"
    by (rule solutions_exact_range[OF assms])
  moreover from this have "distinct (solutions_exact iter rs cs)"
    using solutions_distinct[OF assms(1), of "Puzzle rs (map of_int cs)"] by simp
  ultimately show ?thesis using solutions_exact_iff[OF assms(1)] by auto
qed

lemma well_formed_correct_below_2_53:
  assumes "set_order iter"
    and "list_all (\<lambda>r. 0 \<le> r \<and> r < 2 ^ 53) rs" "list_all (\<lambda>c. 0 \<le> c \<and> c < 2 ^ 53) cs"
  shows "well_formed iter (Puzzle rs (map of_int cs)) = Inr (card {t. solves t rs cs} = 1)"
proof -
  from solutions_correct_below_2_53[OF assms] obtain tables where
    t: "solutions iter (Puzzle rs (map of_int cs)) = (tables, None)" "distinct tables"
       "set tables = {t. solves t rs cs}" by blast
  have "card {t. solves t rs cs} = length tables"
    using distinct_card[OF t(2)] t(3) by simp
  moreover have "well_formed iter (Puzzle rs (map of_int cs)) = Inr (length tables = 1)"
    unfolding well_formed_eq t(1)
    by (cases tables rule: list.exhaust[case_product list.exhaust]) (auto split: list.splits)
  ultimately show ?thesis by simp
qed

lemma count_list_distinct:
  "distinct xs \<Longrightarrow> count_list xs x = (if x \<in> set xs then 1 else 0)"
  by (induction xs) auto

lemma solutions_count_below_2_53:
  assumes "set_order iter"
    and "list_all (\<lambda>r. 0 \<le> r \<and> r < 2 ^ 53) rs" "list_all (\<lambda>c. 0 \<le> c \<and> c < 2 ^ 53) cs"
  shows "count_list (fst (solutions iter (Puzzle rs (map of_int cs)))) t =
     (if solves t rs cs then 1 else 0)"
proof -
  from solutions_correct_below_2_53[OF assms] obtain tables where
    t: "solutions iter (Puzzle rs (map of_int cs)) = (tables, None)" "distinct tables"
       "set tables = {t. solves t rs cs}" by blast
  have "count_list tables t = (if t \<in> set tables then 1 else 0)"
    using t(2) by (rule count_list_distinct)
  then show ?thesis unfolding t(1) using t(3) by simp
qed

subsection \<open>The puzzle of a table\<close>

lemma int64_id: "- (2 ^ 63) \<le> n \<Longrightarrow> n < 2 ^ 63 \<Longrightarrow> int64 n = n"
  by (simp add: int64_def)

lemma prod_list_digits_pos: "list_all (\<lambda>x. 1 \<le> x \<and> x \<le> 9) xs \<Longrightarrow> (1::int) \<le> prod_list xs"
proof (induction xs)
  case Nil then show ?case by simp
next
  case (Cons x xs)
  then have "1 \<le> x" "1 \<le> prod_list xs" by auto
  then have "1 * 1 \<le> x * prod_list xs" by (intro mult_mono) auto
  then show ?case by simp
qed

lemma foldl_int64:
  "list_all (\<lambda>x. 1 \<le> x \<and> x \<le> 9) xs \<Longrightarrow> 0 < a \<Longrightarrow> a * prod_list xs < 2 ^ 63 \<Longrightarrow>
     foldl (\<lambda>a x. int64 (a * x)) a xs = a * prod_list xs"
proof (induction xs arbitrary: a)
  case Nil then show ?case by simp
next
  case (Cons x xs)
  from Cons.prems have x: "1 \<le> x" and xs: "list_all (\<lambda>x. 1 \<le> x \<and> x \<le> 9) xs" by auto
  have p: "1 \<le> prod_list xs" using xs by (rule prod_list_digits_pos)
  have pos: "0 < a * x" using Cons.prems(2) x by simp
  have "a * x * 1 \<le> a * x * prod_list xs" using pos p by (intro mult_left_mono) auto
  with Cons.prems(3) have lt: "a * x < 2 ^ 63" by (simp add: mult.assoc)
  have "int64 (a * x) = a * x" using pos lt by (intro int64_id) auto
  moreover have "foldl (\<lambda>a x. int64 (a * x)) (a * x) xs = a * x * prod_list xs"
    using Cons.prems(3) by (intro Cons.IH[OF xs pos]) (simp add: mult.assoc)
  ultimately show ?case by (simp add: mult.assoc)
qed

lemma prod_np_exact:
  "list_all (\<lambda>x. 1 \<le> x \<and> x \<le> 9) xs \<Longrightarrow> prod_list xs < 2 ^ 63 \<Longrightarrow> prod_np xs = prod_list xs"
  using foldl_int64[of xs 1] by (simp add: prod_np_def)

lemma map_nth_comp: "map (\<lambda>j. f (xs ! j)) [0..<length xs] = map f xs"
  by (intro nth_equalityI) simp_all

lemma columns_of_rectangle:
  assumes "list_all (\<lambda>row. length row = n) t" "t \<noteq> []"
  shows "transpose t = map (\<lambda>j. map (\<lambda>row. row ! j) t) [0..<n]"
proof -
  have "transpose t = map (\<lambda>i. map (\<lambda>j. t ! j ! i) [0..<length t]) [0..<n]"
    using assms by (intro transpose_rectangle) (auto simp: list_all_length)
  also have "\<dots> = map (\<lambda>j. map (\<lambda>row. row ! j) t) [0..<n]"
    by (simp add: map_nth_comp[of "\<lambda>row. row ! _" t])
  finally show ?thesis .
qed

lemma table_solves_its_products:
  assumes "list_all (\<lambda>row. length row = n \<and> list_all (\<lambda>x. 1 \<le> x \<and> x \<le> 9) row) t"
  shows "solves t (map prod_list t) (map prod_list (transpose t))"
proof (cases "t = []")
  case True
  then show ?thesis by (simp add: solves_def)
next
  case False
  from assms have r: "list_all (\<lambda>row. length row = n) t" by (auto simp: list_all_iff)
  note T = columns_of_rectangle[OF r False]
  have l: "length (map prod_list (transpose t)) = n" unfolding T by simp
  have "map (\<lambda>j. prod_list (map (\<lambda>row. row ! j) t)) [0..<n] = map prod_list (transpose t)"
    unfolding T by (simp add: comp_def)
  then show ?thesis using assms unfolding solves_def l by (auto simp: list_all_iff)
qed

lemma table_puzzle_exact:
  assumes "list_all (\<lambda>row. length row = n \<and> list_all (\<lambda>x. 1 \<le> x \<and> x \<le> 9) row) t"
    and "list_all (\<lambda>row. prod_list row < 2 ^ 63) t"
    and "list_all (\<lambda>col. prod_list col < 2 ^ 63) (transpose t)"
  shows "table_puzzle t = Puzzle_int64 (map prod_list t) (map of_int (map prod_list (transpose t)))"
proof -
  have rows: "map prod_np t = map prod_list t"
    using assms(1,2) by (auto simp: list_all_iff prod_np_exact)
  have "list_all (\<lambda>x. 1 \<le> x \<and> x \<le> 9) col" if "col \<in> set (transpose t)" for col
  proof (cases "t = []")
    case True with that show ?thesis by simp
  next
    case False
    from assms(1) have r: "list_all (\<lambda>row. length row = n) t" by (auto simp: list_all_iff)
    from that obtain j where j: "j < n" "col = map (\<lambda>row. row ! j) t"
      unfolding columns_of_rectangle[OF r False] by auto
    show ?thesis unfolding j(2) using assms(1) j(1) by (auto simp: list_all_iff list_all_length)
  qed
  then have "map (\<lambda>col. rat_of_int (prod_np col)) (transpose t)
      = map of_int (map prod_list (transpose t))"
    using assms(3) by (auto simp: list_all_iff prod_np_exact)
  with rows show ?thesis by (simp add: table_puzzle_def)
qed

lemma round_trip_below_2_53:
  assumes "set_order iter"
    and "list_all (\<lambda>row. length row = n \<and> list_all (\<lambda>x. 1 \<le> x \<and> x \<le> 9) row) t"
    and "list_all (\<lambda>row. prod_list row < 2 ^ 53) t"
    and "list_all (\<lambda>col. prod_list col < 2 ^ 53) (transpose t)"
  shows "t \<in> set (fst (solutions iter (table_puzzle t)))"
proof -
  have lt: "x < 2 ^ 63" if "x < 2 ^ 53" for x :: int
  proof -
    have "(2::int) ^ 53 \<le> 2 ^ 63" by simp
    with that show ?thesis by linarith
  qed
  have tpz: "table_puzzle t = Puzzle_int64 (map prod_list t) (map of_int (map prod_list (transpose t)))"
    using assms(2-4) lt by (intro table_puzzle_exact) (auto simp: list_all_iff)
  have rs: "list_all (\<lambda>r. 0 \<le> r \<and> r < 2 ^ 53) (map prod_list t)"
  proof -
    have "0 \<le> prod_list row" if "row \<in> set t" for row
      using prod_list_digits_pos[of row] assms(2) that by (auto simp: list_all_iff)
    then show ?thesis using assms(3) by (auto simp: list_all_iff)
  qed
  have "0 \<le> prod_list col" if "col \<in> set (transpose t)" for col
  proof -
    from table_solves_its_products[OF assms(2)]
    have "solves t (map prod_list t) (map prod_list (transpose t))" .
    show ?thesis
    proof (cases "t = []")
      case True with that show ?thesis by simp
    next
      case False
      from assms(2) have r: "list_all (\<lambda>row. length row = n) t" by (auto simp: list_all_iff)
      from that obtain j where j: "j < n" "col = map (\<lambda>row. row ! j) t"
        unfolding columns_of_rectangle[OF r False] by auto
      have "list_all (\<lambda>x. 1 \<le> x \<and> x \<le> 9) col"
        unfolding j(2) using assms(2) j(1) by (auto simp: list_all_iff list_all_length)
      from prod_list_digits_pos[OF this] show ?thesis by simp
    qed
  qed
  then have cs: "list_all (\<lambda>c. 0 \<le> c \<and> c < 2 ^ 53) (map prod_list (transpose t))"
    using assms(4) by (auto simp: list_all_iff)
  from solutions_correct_below_2_53[OF assms(1) rs cs] table_solves_its_products[OF assms(2)]
  show ?thesis unfolding tpz solutions_int64_below_2_53[OF rs] by auto
qed

section \<open>Particular inputs\<close>

subsection \<open>Rounded values\<close>

lemma round_double_half_of_2_53_plus_1: "round_double (9007199254740993 / 2) = 4503599627370496"
proof -
  have "rne ((9007199254740993 / 2) / 2 powi (52 - 52)) = 4503599627370496"
    using rne_tie[of "9007199254740993 / 2" 4503599627370496] by simp
  from round_double_pos_eq[of "9007199254740993 / 2" 52, OF _ _ _ _ this] show ?thesis by simp
qed

lemma round_double_2_53_plus_1: "round_double 9007199254740993 = 9007199254740992"
proof -
  have "rne (9007199254740993 / 2 powi (53 - 52)) = 4503599627370496"
    using rne_tie[of "9007199254740993 / 2" 4503599627370496] by simp
  from round_double_pos_eq[of "9007199254740993" 53, OF _ _ _ _ this] show ?thesis by simp
qed

lemma round_double_eighth_of_2_53_plus_1: "round_double (9007199254740993 / 8) = 1125899906842624"
proof -
  have "rne ((9007199254740993 / 8) / 2 powi (50 - 52)) = 4503599627370496"
    using rne_tie[of "9007199254740993 / 2" 4503599627370496] by simp
  from round_double_pos_eq[of "9007199254740993 / 8" 50, OF _ _ _ _ this] show ?thesis by simp
qed

lemma round_double_5_times_9_16: "round_double 9265100944259205 = 9265100944259204"
proof -
  have "rne (9265100944259205 / 2 powi (53 - 52)) = 4632550472129602"
    using rne_tie[of "9265100944259205 / 2" 4632550472129602] by simp
  from round_double_pos_eq[of "9265100944259205" 53, OF _ _ _ _ this] show ?thesis by simp
qed

lemma round_double_fifth_of_5_times_9_16: "round_double (9265100944259204 / 5) = 7412080755407363 / 4"
proof -
  have "rne ((9265100944259204 / 5) / 2 powi (50 - 52)) = 7412080755407363"
    by (rule rne_near) simp
  from round_double_pos_eq[of "9265100944259204 / 5" 50, OF _ _ _ _ this] show ?thesis by simp
qed

lemma round_double_2_1024: "round_double (2 ^ 1024) = 2 ^ 1024"
proof -
  have "rne (2 ^ 1024 / 2 powi (1024 - 52)) = 2 ^ 52"
    by (rule rne_near) simp
  from round_double_pos_eq[of "2 ^ 1024" 1024, OF _ _ _ _ this] show ?thesis by simp
qed

lemma round_double_2_50: "round_double 1125899906842624 = 1125899906842624"
  using round_double_of_int[of 1125899906842624] by simp

lemma round_double_2_52: "round_double 4503599627370496 = 4503599627370496"
  using round_double_of_int[of 4503599627370496] by simp

lemma truediv_2_53_plus_1_by_8: "truediv 9007199254740993 8 = Inr 1125899906842624"
  by (simp add: truediv_def Let_def round_double_eighth_of_2_53_plus_1)

lemma truediv_2_53_plus_1_by_2: "truediv 9007199254740993 2 = Inr 4503599627370496"
  by (simp add: truediv_def Let_def round_double_half_of_2_53_plus_1)

lemma truediv_2_1024: "truediv (2 ^ 1024) 1 = Inl OverflowError"
  using round_double_2_1024 by (simp add: truediv_def Let_def)

lemma divide_by_8: "divide_np [9007199254740993] [8] = Inr [1125899906842624]"
  by (simp add: divide_np_def round_double_2_53_plus_1 round_double_2_50)

lemma divide_by_2: "divide_np [9007199254740993] [2] = Inr [4503599627370496]"
  by (simp add: divide_np_def round_double_2_53_plus_1 round_double_2_52)

lemma divide_by_5: "divide_np [9265100944259205] [5] = Inr [7412080755407363 / 4]"
  by (simp add: divide_np_def round_double_5_times_9_16 round_double_fifth_of_5_times_9_16)

subsection \<open>Runs\<close>

lemma upto_1_9: "[1..9] = [1, 2, 3, 4, 5, 6, 7, 8, (9::int)]"
  by (simp add: upto.simps)

lemma fill_row_2_1024:
  "fill_row (2 ^ 1024) 1 = Inl OverflowError"
proof -
  have "[1..9] = 1 # [2..9]" by (simp add: upto.simps)
  then show ?thesis using truediv_2_1024 by simp
qed

lemma solutions_column_step:
  assumes "set_order iter" "1 \<le> d" "d \<le> 9" "is_integer c" "divide_np [c] [d] = Inr [c']"
  shows "solutions iter (Puzzle (d # rs) [c]) =
     (case solutions iter (Puzzle rs [c']) of (tables, r) \<Rightarrow> (map ((#) [d]) tables, r))"
proof -
  have "fill_row d (Suc 0) = Inr [[d]]"
    using fill_row_exact_range[of d "Suc 0"] assms(2,3) fill_row_exact_single[OF assms(2,3)] by simp
  then show ?thesis
    using assms(4,5) set_order_single[OF assms(1)]
    by (simp add: gen_for_single del: fill_row.simps gen_for.simps)
qed

lemma solutions_exact_17_rows:
  assumes "set_order iter"
  shows "solutions_exact iter [8, 8, 8, 8, 8, 8, 8, 8, 8, 8, 8, 8, 8, 8, 8, 8, 4] [1125899906842624]
    = [[[8], [8], [8], [8], [8], [8], [8], [8], [8], [8], [8], [8], [8], [8], [8], [8], [4]]]"
  by (simp add: solutions_exact_column[OF assms] del: solutions_exact.simps(2))

lemma solutions_18_rows:
  assumes "set_order iter"
  shows "solutions iter (Puzzle [8, 8, 8, 8, 8, 8, 8, 8, 8, 8, 8, 8, 8, 8, 8, 8, 8, 4] [9007199254740993]) =
    ([[[8], [8], [8], [8], [8], [8], [8], [8], [8], [8], [8], [8], [8], [8], [8], [8], [8], [4]]], None)"
proof -
  have "solutions iter (Puzzle [8, 8, 8, 8, 8, 8, 8, 8, 8, 8, 8, 8, 8, 8, 8, 8, 4] (map of_int [1125899906842624]))
     = (solutions_exact iter [8, 8, 8, 8, 8, 8, 8, 8, 8, 8, 8, 8, 8, 8, 8, 8, 4] [1125899906842624], None)"
    by (rule solutions_exact_range[OF assms]) simp_all
  then have "solutions iter (Puzzle [8, 8, 8, 8, 8, 8, 8, 8, 8, 8, 8, 8, 8, 8, 8, 8, 4] [1125899906842624])
     = ([[[8], [8], [8], [8], [8], [8], [8], [8], [8], [8], [8], [8], [8], [8], [8], [8], [4]]], None)"
    unfolding solutions_exact_17_rows[OF assms] by (simp only: list.map of_int_numeral)
  moreover have "solutions iter (Puzzle (8 # [8, 8, 8, 8, 8, 8, 8, 8, 8, 8, 8, 8, 8, 8, 8, 8, 4]) [9007199254740993]) =
     (case solutions iter (Puzzle [8, 8, 8, 8, 8, 8, 8, 8, 8, 8, 8, 8, 8, 8, 8, 8, 4] [1125899906842624])
        of (tables, r) \<Rightarrow> (map ((#) [8]) tables, r))"
    by (rule solutions_column_step[OF assms _ _ _ divide_by_8]) simp_all
  ultimately show ?thesis by (simp only: prod.case list.map)
qed

lemma solutions_exact_worked_example:
  "solutions_exact insertion_order [210, 144, 54, 135, 4, 49] [6615, 15552, 420] =
     [[[7, 6, 5], [9, 8, 2], [3, 9, 2], [5, 9, 3], [1, 4, 1], [7, 1, 7]]]"
  by (simp add: insertion_order_def eval_nat_numeral upto_1_9 fill_row_exact_Suc del: fill_row_exact.simps(2))

lemma solutions_exact_8_8_1:
  "solutions_exact insertion_order [8, 8, 1] [8, 8, 1] =
     [[[1, 8, 1], [8, 1, 1], [1, 1, 1]], [[2, 4, 1], [4, 2, 1], [1, 1, 1]],
      [[4, 2, 1], [2, 4, 1], [1, 1, 1]], [[8, 1, 1], [1, 8, 1], [1, 1, 1]]]"
  by (simp add: insertion_order_def eval_nat_numeral upto_1_9 fill_row_exact_Suc del: fill_row_exact.simps(2))

lemma solutions_8_8_1:
  "solutions insertion_order (Puzzle [8, 8, 1] [8, 8, 1]) =
     ([[[1, 8, 1], [8, 1, 1], [1, 1, 1]], [[2, 4, 1], [4, 2, 1], [1, 1, 1]],
       [[4, 2, 1], [2, 4, 1], [1, 1, 1]], [[8, 1, 1], [1, 8, 1], [1, 1, 1]]], None)"
proof -
  have "solutions insertion_order (Puzzle [8, 8, 1] (map of_int [8, 8, 1]))
      = (solutions_exact insertion_order [8, 8, 1] [8, 8, 1], None)"
    by (rule solutions_exact_range[OF set_order_insertion_order]) simp_all
  then show ?thesis unfolding solutions_exact_8_8_1 by (simp only: list.map of_int_numeral of_int_1)
qed

lemma solves_2_4:
  "solves [[2, 4, 1], [4, 2, 1], [1, 1, 1]] [8, 8, 1] [8, 8, 1]"
  by (simp add: solves_def eval_nat_numeral)

lemma table_puzzle_17_rows: "table_puzzle [[5], [9], [9], [9], [9], [9], [9], [9], [9], [9], [9], [9], [9], [9], [9], [9], [9]]
  = Puzzle_int64 [5, 9, 9, 9, 9, 9, 9, 9, 9, 9, 9, 9, 9, 9, 9, 9, 9] [9265100944259205]"
  by (simp add: table_puzzle_def prod_np_def int64_def)

lemma solves_17_rows:
  "solves [[5], [9], [9], [9], [9], [9], [9], [9], [9], [9], [9], [9], [9], [9], [9], [9], [9]]
      [5, 9, 9, 9, 9, 9, 9, 9, 9, 9, 9, 9, 9, 9, 9, 9, 9] [9265100944259205]"
  by (simp add: solves_def)

lemma solutions_17_rows_empty:
  assumes "set_order iter"
  shows "solutions iter (Puzzle [5, 9, 9, 9, 9, 9, 9, 9, 9, 9, 9, 9, 9, 9, 9, 9, 9] [9265100944259205]) = ([], None)"
proof -
  have "\<not> is_integer (7412080755407363 / 4)"
    by (rule not_integer_between[of 1853020188851840]) simp_all
  then have "\<not> list_all is_integer [7412080755407363 / 4]" by simp
  then have "solutions iter (Puzzle [9, 9, 9, 9, 9, 9, 9, 9, 9, 9, 9, 9, 9, 9, 9, 9] [7412080755407363 / 4]) = ([], None)"
    by (rule solutions_not_integer)
  moreover have "solutions iter (Puzzle (5 # [9, 9, 9, 9, 9, 9, 9, 9, 9, 9, 9, 9, 9, 9, 9, 9]) [9265100944259205]) =
     (case solutions iter (Puzzle [9, 9, 9, 9, 9, 9, 9, 9, 9, 9, 9, 9, 9, 9, 9, 9] [7412080755407363 / 4])
        of (tables, r) \<Rightarrow> (map ((#) [5]) tables, r))"
    by (rule solutions_column_step[OF assms _ _ _ divide_by_5]) simp_all
  ultimately show ?thesis by (simp only: prod.case list.map)
qed

section \<open>The claims\<close>

text \<open>
  Claim C1 says that, for every puzzle whose products are non-negative integers,
  \<^verbatim>\<open>solutions\<close> yields exactly the tables that satisfy the puzzle. It does below
  \<open>2 ^ 53\<close> (\<open>solutions_correct_below_2_53\<close>). It does not at the puzzle with the eighteen
  row products 8, ..., 8, 4 and the single column product \<open>2 ^ 53 + 1\<close>:
  \<^verbatim>\<open>numpy.divide\<close> converts the column product to binary64, which holds \<open>2 ^ 53\<close> in
  its place, and the run yields the one table whose column multiplies to \<open>2 ^ 53\<close>. That
  table does not satisfy the puzzle.
\<close>
theorem solutions_yields_non_solution:
  assumes "set_order iter"
  shows "solutions iter (Puzzle [8, 8, 8, 8, 8, 8, 8, 8, 8, 8, 8, 8, 8, 8, 8, 8, 8, 4] [9007199254740993]) =
      ([[[8], [8], [8], [8], [8], [8], [8], [8], [8], [8], [8], [8], [8], [8], [8], [8], [8], [4]]], None) \<and>
    \<not> solves [[8], [8], [8], [8], [8], [8], [8], [8], [8], [8], [8], [8], [8], [8], [8], [8], [8], [4]]
        [8, 8, 8, 8, 8, 8, 8, 8, 8, 8, 8, 8, 8, 8, 8, 8, 8, 4] [9007199254740993]"
proof
  show "solutions iter (Puzzle [8, 8, 8, 8, 8, 8, 8, 8, 8, 8, 8, 8, 8, 8, 8, 8, 8, 4] [9007199254740993]) =
      ([[[8], [8], [8], [8], [8], [8], [8], [8], [8], [8], [8], [8], [8], [8], [8], [8], [8], [4]]], None)"
    by (rule solutions_18_rows[OF assms])
  show "\<not> solves [[8], [8], [8], [8], [8], [8], [8], [8], [8], [8], [8], [8], [8], [8], [8], [8], [8], [4]]
        [8, 8, 8, 8, 8, 8, 8, 8, 8, 8, 8, 8, 8, 8, 8, 8, 8, 4] [9007199254740993]"
    using single_column[of _ "[8, 8, 8, 8, 8, 8, 8, 8, 8, 8, 8, 8, 8, 8, 8, 8, 8, 4]" 9007199254740993]
    by auto
qed

theorem solutions_yields_non_solution_witness:
  "set_order insertion_order \<and>
   fst (solutions insertion_order
     (Puzzle [8, 8, 8, 8, 8, 8, 8, 8, 8, 8, 8, 8, 8, 8, 8, 8, 8, 4] [9007199254740993])) =
      [[[8], [8], [8], [8], [8], [8], [8], [8], [8], [8], [8], [8], [8], [8], [8], [8], [8], [4]]]"
  using solutions_yields_non_solution[OF set_order_insertion_order] set_order_insertion_order
  by (simp only: fst_conv simp_thms)

text \<open>
  Claim C2 says that \<^verbatim>\<open>fill_row(product, k)\<close> returns the set of all rows of \<open>k\<close>
  digits whose product is \<open>product\<close>, for every \<open>product \<ge> 0\<close>. It does below \<open>2 ^ 53\<close>
  (\<open>fill_row_correct_below_2_53\<close>). For the product \<open>2 ^ 53 + 1\<close> and \<open>k = 18\<close> the
  quotient by 8 is \<open>2 ^ 50 + 1/8\<close>, which binary64 rounds to the integer \<open>2 ^ 50\<close>: the
  digit 8 passes the test, and the set holds a row whose digits multiply to \<open>2 ^ 53\<close>.
\<close>
theorem fill_row_wrong_product:
  "\<exists>rows. fill_row 9007199254740993 18 = Inr rows \<and>
      [8, 8, 8, 8, 8, 8, 8, 8, 8, 8, 8, 8, 8, 8, 8, 8, 8, 4] \<in> set rows \<and>
      prod_list [8, 8, 8, 8, 8, 8, 8, 8, 8, 8, 8, 8, 8, 8, 8, 8, 8, 4] \<noteq> (9007199254740993::int)"
proof -
  have "\<bar>9007199254740993::int\<bar> \<le> 2 ^ 1023" by simp
  from fill_row_ok[OF this, of 18] obtain rows where rows: "fill_row 9007199254740993 (Suc 17) = Inr rows"
    by (auto simp: eval_nat_numeral)
  have r: "fill_row (9007199254740993 div 8) 17 = Inr (fill_row_exact 1125899906842624 17)"
    using fill_row_exact_range[of 1125899906842624 17] by simp
  have m: "[8, 8, 8, 8, 8, 8, 8, 8, 8, 8, 8, 8, 8, 8, 8, 8, 4] \<in> set (fill_row_exact 1125899906842624 17)"
    by (simp add: fill_row_exact_iff)
  have "[8, 8, 8, 8, 8, 8, 8, 8, 8, 8, 8, 8, 8, 8, 8, 8, 8, 4] \<in> set rows"
    unfolding fill_row_Suc_mem[OF rows] using truediv_2_53_plus_1_by_8 r m
    by (intro exI[of _ 8] exI[of _ "[8, 8, 8, 8, 8, 8, 8, 8, 8, 8, 8, 8, 8, 8, 8, 8, 4]"]
          exI[of _ 1125899906842624] exI[of _ "fill_row_exact 1125899906842624 17"]) simp
  with rows show ?thesis by (simp add: eval_nat_numeral)
qed

text \<open>
  Claim C3 says that \<^verbatim>\<open>well_formed\<close> returns true exactly when one table satisfies the
  puzzle, and that it pulls at most two values from \<^verbatim>\<open>solutions\<close>. The second part
  holds (\<open>well_formed_two_pulls\<close>), and the first does below \<open>2 ^ 53\<close>
  (\<open>well_formed_correct_below_2_53\<close>). At the puzzle of C1 it returns true, and no table
  satisfies that puzzle.
\<close>
theorem well_formed_without_solution:
  assumes "set_order iter"
  shows "well_formed iter (Puzzle [8, 8, 8, 8, 8, 8, 8, 8, 8, 8, 8, 8, 8, 8, 8, 8, 8, 4] [9007199254740993]) = Inr True \<and>
    card {t. solves t [8, 8, 8, 8, 8, 8, 8, 8, 8, 8, 8, 8, 8, 8, 8, 8, 8, 4] [9007199254740993]} = 0"
proof
  show "well_formed iter (Puzzle [8, 8, 8, 8, 8, 8, 8, 8, 8, 8, 8, 8, 8, 8, 8, 8, 8, 4] [9007199254740993]) = Inr True"
    by (simp only: well_formed_eq solutions_18_rows[OF assms] prod.case list.case option.case)
  have "\<not> solves t [8, 8, 8, 8, 8, 8, 8, 8, 8, 8, 8, 8, 8, 8, 8, 8, 8, 4] [9007199254740993]" for t
    using single_column[of t "[8, 8, 8, 8, 8, 8, 8, 8, 8, 8, 8, 8, 8, 8, 8, 8, 8, 4]" 9007199254740993]
    by auto
  then have "{t. solves t [8, 8, 8, 8, 8, 8, 8, 8, 8, 8, 8, 8, 8, 8, 8, 8, 8, 4] [9007199254740993]} = {}"
    by simp
  then show "card {t. solves t [8, 8, 8, 8, 8, 8, 8, 8, 8, 8, 8, 8, 8, 8, 8, 8, 8, 4] [9007199254740993]} = 0"
    by (simp only: card.empty)
qed

theorem well_formed_without_solution_witness:
  "set_order insertion_order \<and>
   well_formed insertion_order
     (Puzzle [8, 8, 8, 8, 8, 8, 8, 8, 8, 8, 8, 8, 8, 8, 8, 8, 8, 4] [9007199254740993]) = Inr True"
  using well_formed_without_solution[OF set_order_insertion_order] set_order_insertion_order
  by blast

text \<open>
  Claim C4 says that the two divisibility tests are done with the integer remainder and
  are exact for products of any size. The notebook divides in floating point. For the
  product \<open>2 ^ 53 + 1\<close> and the digit 2, the test of \<^verbatim>\<open>fill_row\<close>,
  \<^verbatim>\<open>(product / d).is_integer()\<close>, and the test of \<^verbatim>\<open>solutions\<close>,
  \<^verbatim>\<open>c == int(c)\<close> on \<^verbatim>\<open>divide(col_prods, row1)\<close>, both accept; the remainder
  is 1. Below \<open>2 ^ 53\<close> the tests agree with the remainder (\<open>is_integer_quotient_iff\<close>).
\<close>
theorem float_divisibility_test_inexact:
  "truediv 9007199254740993 2 = Inr 4503599627370496 \<and>
   divide_np [9007199254740993] [2] = Inr [4503599627370496] \<and>
   is_integer 4503599627370496 \<and>
   (9007199254740993 :: int) mod 2 \<noteq> 0"
  by (simp add: truediv_2_53_plus_1_by_2 divide_by_2)

text \<open>
  Claim C5 says that a puzzle with a negative product makes \<^verbatim>\<open>solutions\<close>,
  \<^verbatim>\<open>solve\<close> and \<^verbatim>\<open>well_formed\<close> raise an invalid-input error. The notebook has
  no such error. What holds: with a negative row or column product, and every product of
  magnitude at most \<open>2 ^ 63\<close>, \<^verbatim>\<open>solutions\<close> yields nothing and ends normally,
  \<^verbatim>\<open>solve\<close> returns the no-solution result and \<^verbatim>\<open>well_formed\<close> returns false.
\<close>
theorem negative_products_are_silently_unsolvable:
  assumes "set_order iter"
    and "list_all (\<lambda>r. \<bar>r\<bar> \<le> 2 ^ 63) rs"
    and "list_all (\<lambda>c. \<bar>c\<bar> \<le> 2 ^ 63) cs"
    and "(\<exists>r \<in> set rs. r < 0) \<or> (\<exists>c \<in> set cs. c < 0)"
  shows "solutions iter (Puzzle rs (map of_int cs)) = ([], None) \<and>
    solve iter (Puzzle rs (map of_int cs)) = Inr None \<and>
    well_formed iter (Puzzle rs (map of_int cs)) = Inr False"
  by (simp only: solve_eq well_formed_eq negative_puzzle_empty[OF assms] prod.case list.case option.case simp_thms)

theorem negative_products_are_silently_unsolvable_witness:
  "set_order insertion_order \<and> list_all (\<lambda>r. \<bar>r\<bar> \<le> 2 ^ 63) [5 :: int] \<and>
   list_all (\<lambda>c. \<bar>c\<bar> \<le> 2 ^ 63) [- 5 :: int] \<and>
   ((\<exists>r \<in> set [5 :: int]. r < 0) \<or> (\<exists>c \<in> set [- 5 :: int]. c < 0)) \<and>
   solve insertion_order (Puzzle [5] [- 5]) = Inr None \<and>
   well_formed insertion_order (Puzzle [5] [- 5]) = Inr False"
  using negative_products_are_silently_unsolvable[of insertion_order "[5]" "[- 5]"]
    set_order_insertion_order
  by simp

text \<open>Claim C5 as it is written fails at the puzzle with the products \<open>-6\<close> and \<open>-6\<close>.\<close>
theorem negative_product_no_error:
  "solutions insertion_order (Puzzle [- 6] [- 6]) = ([], None) \<and>
   solve insertion_order (Puzzle [- 6] [- 6]) = Inr None \<and>
   well_formed insertion_order (Puzzle [- 6] [- 6]) = Inr False"
proof -
  have "solutions insertion_order (Puzzle [- 6] (map of_int [- 6])) = ([], None)"
    by (rule negative_puzzle_empty[OF set_order_insertion_order]) simp_all
  then have "solutions insertion_order (Puzzle [- 6] [- 6]) = ([], None)"
    by (simp only: list.map of_int_minus of_int_numeral)
  then show ?thesis
    by (simp only: solve_eq well_formed_eq prod.case list.case option.case simp_thms)
qed

text \<open>
  Claim C6: zero is a legal product that has no solution. For every \<open>k > 0\<close>,
  \<^verbatim>\<open>fill_row(0, k)\<close> is the empty set, and \<^verbatim>\<open>solve(Puzzle([0], [0]))\<close> returns
  the no-solution result and raises nothing.
\<close>
theorem zero_products_yield_nothing:
  "(0 < k \<longrightarrow> fill_row 0 k = Inr []) \<and>
   (set_order iter \<longrightarrow> solve iter (Puzzle [0] [0]) = Inr None)"
proof (intro conjI impI)
  show "fill_row 0 k = Inr []"
    using fill_row_exact_range[of 0 k] by (simp add: fill_row_exact_zero)
next
  assume so: "set_order iter"
  have "solutions iter (Puzzle [0] (map of_int [0])) = (solutions_exact iter [0] [0], None)"
    by (rule solutions_exact_range[OF so]) simp_all
  moreover have "solutions_exact iter [0] [0] = []"
    using set_order_Nil[OF so] by (simp add: fill_row_exact_zero del: fill_row_exact.simps)
  ultimately have "solutions iter (Puzzle [0] [0]) = ([], None)" by (simp only: list.map of_int_0)
  then show "solve iter (Puzzle [0] [0]) = Inr None" by (simp only: solve_eq prod.case list.case option.case)
qed

theorem zero_products_yield_nothing_witness:
  "0 < (3::nat) \<and> fill_row 0 3 = Inr [] \<and> set_order insertion_order \<and>
   solve insertion_order (Puzzle [0] [0]) = Inr None"
  using zero_products_yield_nothing[of 3 insertion_order] set_order_insertion_order by simp

text \<open>
  Claim C7 says that \<^verbatim>\<open>fill_row\<close> and \<^verbatim>\<open>solutions\<close> end with a result on every
  non-negative integer input, never with a runtime fault. Both recursions are structural
  (on \<open>k\<close>, and on the list of row products), and nothing is raised while the row products
  are at most \<open>2 ^ 1023\<close> and the column products at most \<open>2 ^ 63\<close> in magnitude
  (\<open>fill_row_ok\<close>, \<open>solutions_ok\<close>). At the product \<open>2 ^ 1024\<close> the float division in
  \<^verbatim>\<open>fill_row\<close> raises OverflowError, and so do \<^verbatim>\<open>solutions\<close> and
  \<^verbatim>\<open>solve\<close>.
\<close>
theorem fill_row_overflow:
  "fill_row (2 ^ 1024) 1 = Inl OverflowError \<and>
   solutions iter (Puzzle [2 ^ 1024] [1]) = ([], Some OverflowError) \<and>
   solve iter (Puzzle [2 ^ 1024] [1]) = Inl OverflowError"
proof -
  have f: "fill_row (2 ^ 1024) (Suc 0) = Inl OverflowError" using fill_row_2_1024 by simp
  then have s: "solutions iter (Puzzle [2 ^ 1024] [1]) = ([], Some OverflowError)"
    by (simp del: fill_row.simps)
  show ?thesis using f s by (simp add: solve_eq del: fill_row.simps solutions.simps)
qed

text \<open>
  Claim C8 says that every table \<open>T\<close> of digits is among
  \<^verbatim>\<open>solutions(table_puzzle(T))\<close>. It is where the products of its rows and columns are
  below \<open>2 ^ 53\<close> (\<open>round_trip_below_2_53\<close>). It is not for the table of one column
  with the rows 5, 9, ..., 9 (sixteen nines): the column product \<open>5 * 9 ^ 16\<close> is odd and
  above \<open>2 ^ 53\<close>, binary64 holds the even number below it, a fifth of that number is not
  an integer, and the run yields nothing. The products here are those of
  \<^verbatim>\<open>numpy.prod\<close>, 64-bit integers of numpy.
\<close>
theorem table_puzzle_round_trip_fails:
  assumes "set_order iter"
  shows "table_puzzle [[5], [9], [9], [9], [9], [9], [9], [9], [9], [9], [9], [9], [9], [9], [9], [9], [9]] =
      Puzzle_int64 [5, 9, 9, 9, 9, 9, 9, 9, 9, 9, 9, 9, 9, 9, 9, 9, 9] [9265100944259205] \<and>
    solves [[5], [9], [9], [9], [9], [9], [9], [9], [9], [9], [9], [9], [9], [9], [9], [9], [9]]
      [5, 9, 9, 9, 9, 9, 9, 9, 9, 9, 9, 9, 9, 9, 9, 9, 9] [9265100944259205] \<and>
    solutions iter
      (table_puzzle [[5], [9], [9], [9], [9], [9], [9], [9], [9], [9], [9], [9], [9], [9], [9], [9], [9]]) =
      ([], None)"
proof (intro conjI)
  show "table_puzzle [[5], [9], [9], [9], [9], [9], [9], [9], [9], [9], [9], [9], [9], [9], [9], [9], [9]] =
      Puzzle_int64 [5, 9, 9, 9, 9, 9, 9, 9, 9, 9, 9, 9, 9, 9, 9, 9, 9] [9265100944259205]"
    by (rule table_puzzle_17_rows)
  show "solves [[5], [9], [9], [9], [9], [9], [9], [9], [9], [9], [9], [9], [9], [9], [9], [9], [9]]
      [5, 9, 9, 9, 9, 9, 9, 9, 9, 9, 9, 9, 9, 9, 9, 9, 9] [9265100944259205]"
    by (rule solves_17_rows)
  have "solutions iter (Puzzle_int64 [5, 9, 9, 9, 9, 9, 9, 9, 9, 9, 9, 9, 9, 9, 9, 9, 9] [9265100944259205]) =
      solutions iter (Puzzle [5, 9, 9, 9, 9, 9, 9, 9, 9, 9, 9, 9, 9, 9, 9, 9, 9] [9265100944259205])"
    by (rule solutions_int64_below_2_53) simp
  then show "solutions iter
      (table_puzzle [[5], [9], [9], [9], [9], [9], [9], [9], [9], [9], [9], [9], [9], [9], [9], [9], [9]]) =
      ([], None)"
    by (simp only: table_puzzle_17_rows solutions_17_rows_empty[OF assms])
qed

theorem table_puzzle_round_trip_fails_witness:
  "set_order insertion_order \<and>
   solutions insertion_order
      (table_puzzle [[5], [9], [9], [9], [9], [9], [9], [9], [9], [9], [9], [9], [9], [9], [9], [9], [9]]) =
      ([], None)"
  using table_puzzle_round_trip_fails[OF set_order_insertion_order] set_order_insertion_order
  by blast

text \<open>
  Claim C9: \<^verbatim>\<open>solve\<close> returns the first table that \<^verbatim>\<open>solutions\<close> yields, or the
  no-solution result when it yields none (and raises what \<^verbatim>\<open>solutions\<close> raises before
  its first table). On the puzzle with the row products 210, 144, 54, 135, 4, 49 and the
  column products 6615, 15552, 420 it returns the table of the notebook's test, in whatever
  order the sets are iterated.
\<close>
theorem solve_first_solution:
  "solve iter p = (case solutions iter p of
      (t # ts, r) \<Rightarrow> Inr (Some t)
    | ([], None) \<Rightarrow> Inr None
    | ([], Some e) \<Rightarrow> Inl e) \<and>
   (set_order iter \<longrightarrow>
      solve iter (Puzzle [210, 144, 54, 135, 4, 49] [6615, 15552, 420]) =
        Inr (Some [[7, 6, 5], [9, 8, 2], [3, 9, 2], [5, 9, 3], [1, 4, 1], [7, 1, 7]]))"
proof (intro conjI impI)
  show "solve iter p = (case solutions iter p of
      (t # ts, r) \<Rightarrow> Inr (Some t)
    | ([], None) \<Rightarrow> Inr None
    | ([], Some e) \<Rightarrow> Inl e)" by (rule solve_eq)
next
  assume so: "set_order iter"
  have "solutions iter (Puzzle [210, 144, 54, 135, 4, 49] (map of_int [6615, 15552, 420]))
      = (solutions_exact iter [210, 144, 54, 135, 4, 49] [6615, 15552, 420], None)"
    by (rule solutions_exact_range[OF so]) simp_all
  moreover have "mset (solutions_exact iter [210, 144, 54, 135, 4, 49] [6615, 15552, 420])
      = mset [[[7, 6, 5], [9, 8, 2], [3, 9, 2], [5, 9, 3], [1, 4, 1], [7, 1, 7]]]"
    unfolding solutions_exact_mset[OF so] solutions_exact_worked_example ..
  then have "solutions_exact iter [210, 144, 54, 135, 4, 49] [6615, 15552, 420]
      = [[[7, 6, 5], [9, 8, 2], [3, 9, 2], [5, 9, 3], [1, 4, 1], [7, 1, 7]]]"
    by (simp only: mset.simps mset_single_iff)
  ultimately have "solutions iter (Puzzle [210, 144, 54, 135, 4, 49] [6615, 15552, 420])
      = ([[[7, 6, 5], [9, 8, 2], [3, 9, 2], [5, 9, 3], [1, 4, 1], [7, 1, 7]]], None)"
    by (simp only: list.map of_int_numeral)
  then show "solve iter (Puzzle [210, 144, 54, 135, 4, 49] [6615, 15552, 420]) =
        Inr (Some [[7, 6, 5], [9, 8, 2], [3, 9, 2], [5, 9, 3], [1, 4, 1], [7, 1, 7]])"
    by (simp only: solve_eq prod.case list.case)
qed

theorem solve_first_solution_witness:
  "set_order insertion_order \<and>
   solve insertion_order (Puzzle [210, 144, 54, 135, 4, 49] [6615, 15552, 420]) =
     Inr (Some [[7, 6, 5], [9, 8, 2], [3, 9, 2], [5, 9, 3], [1, 4, 1], [7, 1, 7]])"
  using solve_first_solution[of insertion_order] set_order_insertion_order by blast

text \<open>
  Claim C10 says that \<^verbatim>\<open>solutions\<close> never yields the same table twice, and that
  each table that satisfies the puzzle appears exactly once. No table is yielded twice, for
  every puzzle and every iteration order: the rows of \<^verbatim>\<open>fill_row\<close> are distinct,
  and tables that start with different rows differ. Below \<open>2 ^ 53\<close> a table appears once
  if it satisfies the puzzle and never if it does not. At the puzzle with the seventeen row
  products 5, 9, ..., 9 and the column product \<open>5 * 9 ^ 16\<close> the table with the rows
  5, 9, ..., 9 satisfies the puzzle and is never yielded: \<^verbatim>\<open>numpy.divide\<close>
  converts the column product to binary64, and a fifth of the value it holds is not an
  integer.
\<close>
theorem solutions_once_or_never:
  assumes "set_order iter"
  shows "distinct (fst (solutions iter p)) \<and>
    (list_all (\<lambda>r. 0 \<le> r \<and> r < 2 ^ 53) rs \<and> list_all (\<lambda>c. 0 \<le> c \<and> c < 2 ^ 53) cs \<longrightarrow>
       count_list (fst (solutions iter (Puzzle rs (map of_int cs)))) t =
         (if solves t rs cs then 1 else 0)) \<and>
    solves [[5], [9], [9], [9], [9], [9], [9], [9], [9], [9], [9], [9], [9], [9], [9], [9], [9]]
      [5, 9, 9, 9, 9, 9, 9, 9, 9, 9, 9, 9, 9, 9, 9, 9, 9] [9265100944259205] \<and>
    count_list
      (fst (solutions iter (Puzzle [5, 9, 9, 9, 9, 9, 9, 9, 9, 9, 9, 9, 9, 9, 9, 9, 9] [9265100944259205])))
      [[5], [9], [9], [9], [9], [9], [9], [9], [9], [9], [9], [9], [9], [9], [9], [9], [9]] = 0"
proof (intro conjI impI)
  show "distinct (fst (solutions iter p))"
    by (rule solutions_distinct[OF assms])
  show "count_list (fst (solutions iter (Puzzle rs (map of_int cs)))) t =
         (if solves t rs cs then 1 else 0)"
    if "list_all (\<lambda>r. 0 \<le> r \<and> r < 2 ^ 53) rs \<and> list_all (\<lambda>c. 0 \<le> c \<and> c < 2 ^ 53) cs"
    using that by (intro solutions_count_below_2_53[OF assms]) simp_all
  show "solves [[5], [9], [9], [9], [9], [9], [9], [9], [9], [9], [9], [9], [9], [9], [9], [9], [9]]
      [5, 9, 9, 9, 9, 9, 9, 9, 9, 9, 9, 9, 9, 9, 9, 9, 9] [9265100944259205]"
    by (rule solves_17_rows)
  show "count_list
      (fst (solutions iter (Puzzle [5, 9, 9, 9, 9, 9, 9, 9, 9, 9, 9, 9, 9, 9, 9, 9, 9] [9265100944259205])))
      [[5], [9], [9], [9], [9], [9], [9], [9], [9], [9], [9], [9], [9], [9], [9], [9], [9]] = 0"
    by (simp only: solutions_17_rows_empty[OF assms] fst_conv count_list.simps)
qed

theorem solutions_once_or_never_witness:
  "set_order insertion_order \<and>
   list_all (\<lambda>r. 0 \<le> r \<and> r < 2 ^ 53) [8, 8, 1 :: int] \<and>
   list_all (\<lambda>c. 0 \<le> c \<and> c < 2 ^ 53) [8, 8, 1 :: int] \<and>
   fst (solutions insertion_order (Puzzle [8, 8, 1] [8, 8, 1])) =
     [[[1, 8, 1], [8, 1, 1], [1, 1, 1]], [[2, 4, 1], [4, 2, 1], [1, 1, 1]],
      [[4, 2, 1], [2, 4, 1], [1, 1, 1]], [[8, 1, 1], [1, 8, 1], [1, 1, 1]]] \<and>
   distinct (fst (solutions insertion_order (Puzzle [8, 8, 1] [8, 8, 1]))) \<and>
   solves [[2, 4, 1], [4, 2, 1], [1, 1, 1]] [8, 8, 1] [8, 8, 1] \<and>
   count_list (fst (solutions insertion_order (Puzzle [8, 8, 1] [8, 8, 1])))
     [[2, 4, 1], [4, 2, 1], [1, 1, 1]] = 1"
  using solutions_once_or_never[OF set_order_insertion_order,
      of "Puzzle [8, 8, 1] [8, 8, 1]" "[8, 8, 1]" "[8, 8, 1]" "[[2, 4, 1], [4, 2, 1], [1, 1, 1]]"]
    set_order_insertion_order solves_2_4
  by (simp add: solutions_8_8_1 del: solutions.simps)

end
